theory Spec2Isabelle
  imports Main "HOL-Library.Sublist"
begin

section \<open>Shared data: configuration, errors, chunks\<close>

text \<open>
  \<^verbatim>\<open>src/src/types.ts\<close>. The fields \<^verbatim>\<open>chunkSize\<close> and \<^verbatim>\<open>chunkOverlap\<close> of the
  configuration are \<open>config_chunkSize\<close> and \<open>config_chunkOverlap\<close>, the plain names being
  the chunker's parameters. Numbers of the configuration are integers here; strings are
  lists of characters, and \<open>length\<close> is the source's \<^verbatim>\<open>.length\<close>.
  \<^verbatim>\<open>DocumentChunk\<close> has two more optional fields, \<^verbatim>\<open>id\<close> and \<^verbatim>\<open>metadata\<close>, that no
  function of the repository reads or writes; they are left out. The element type of a
  \<^verbatim>\<open>Float32Array\<close> is the type variable \<open>'f\<close>.
\<close>

record RagConfig =
  apiKey :: string
  embeddingModel :: string
  dbPath :: string
  config_chunkSize :: int
  config_chunkOverlap :: int
  topK :: int

record 'f DocumentChunk =
  filePath :: string
  content :: string
  hash :: string
  embedding :: "'f list option"

record 'd ContextChunk =
  ctx_content :: string
  ctx_filePath :: string
  similarity :: 'd

record 'd QueryResult =
  qr_text :: string
  qr_context :: "'d ContextChunk list"
  qr_citations :: "string list"

datatype error =
    MissingApiKey
  | EmbeddingApiError
  | DimensionMismatch

text \<open>
  \<^verbatim>\<open>getConfig\<close> (config.ts): the merge of the defaults with the user's settings is the
  argument; the function throws when the merged configuration has no API key.
\<close>

definition getConfig :: "RagConfig \<Rightarrow> error + RagConfig" where
  "getConfig config = (if apiKey config = [] then Inl MissingApiKey else Inr config)"


section \<open>Embedding client (\<^verbatim>\<open>src/src/embedder.ts\<close>)\<close>

definition BATCH_SIZE :: nat where
  "BATCH_SIZE = 100"

text \<open>
  The remote call \<^verbatim>\<open>client.embeddings.create({model, input})\<close> is the parameter
  \<open>create\<close>: it fails or returns the list \<^verbatim>\<open>response.data\<close> of embeddings.
  \<open>toF32\<close> is \<^verbatim>\<open>new Float32Array(item.embedding)\<close>.
  The loop \<^verbatim>\<open>for (let i = 0; i < texts.length; i += BATCH_SIZE)\<close>:
\<close>

function generateEmbeddings_loop ::
  "(string \<Rightarrow> string list \<Rightarrow> error + 'e list) \<Rightarrow> ('e \<Rightarrow> 'v) \<Rightarrow> string \<Rightarrow> string list \<Rightarrow>
   nat \<Rightarrow> 'v list \<Rightarrow> error + 'v list" where
  "generateEmbeddings_loop create toF32 embModel texts i allEmbeddings =
     (if i < length texts then
        (case create embModel (take BATCH_SIZE (drop i texts)) of
           Inl e \<Rightarrow> Inl e
         | Inr data \<Rightarrow>
             generateEmbeddings_loop create toF32 embModel texts (i + BATCH_SIZE)
               (allEmbeddings @ map toF32 data))
      else Inr allEmbeddings)"
  by pat_completeness auto
termination
  by (relation "measure (\<lambda>(create, toF32, embModel, texts, i, allEmbeddings). length texts - i)")
     (auto simp: BATCH_SIZE_def)

declare generateEmbeddings_loop.simps [simp del]

text \<open>\<^verbatim>\<open>model || config.embeddingModel\<close>: an absent or empty model name falls back.\<close>

definition model_or_default :: "string option \<Rightarrow> RagConfig \<Rightarrow> string" where
  "model_or_default model config =
     (case model of None \<Rightarrow> embeddingModel config
      | Some m \<Rightarrow> if m = [] then embeddingModel config else m)"

definition generateEmbeddings ::
  "RagConfig \<Rightarrow> (string \<Rightarrow> string list \<Rightarrow> error + 'e list) \<Rightarrow> ('e \<Rightarrow> 'v) \<Rightarrow>
   string list \<Rightarrow> string option \<Rightarrow> error + 'v list" where
  "generateEmbeddings cfg create toF32 texts model =
     (case getConfig cfg of
        Inl e \<Rightarrow> Inl e
      | Inr config \<Rightarrow>
          generateEmbeddings_loop create toF32 (model_or_default model config) texts 0 [])"

text \<open>\<^verbatim>\<open>embeddings[0]\<close> is \<^verbatim>\<open>undefined\<close> (here \<open>None\<close>) on an empty array.\<close>

definition generateEmbedding ::
  "RagConfig \<Rightarrow> (string \<Rightarrow> string list \<Rightarrow> error + 'e list) \<Rightarrow> ('e \<Rightarrow> 'v) \<Rightarrow>
   string \<Rightarrow> string option \<Rightarrow> error + 'v option" where
  "generateEmbedding cfg create toF32 txt model =
     (case generateEmbeddings cfg create toF32 [txt] model of
        Inl e \<Rightarrow> Inl e
      | Inr embeddings \<Rightarrow>
          Inr (case embeddings of [] \<Rightarrow> None | v # _ \<Rightarrow> Some v))"

definition getEmbeddingDimension :: "string \<Rightarrow> nat" where
  "getEmbeddingDimension model =
     (if model = ''text-embedding-3-small'' then 1536
      else if model = ''text-embedding-3-large'' then 3072
      else if model = ''text-embedding-ada-002'' then 1536
      else 1536)"

text \<open>
  The specification's reference point: the naive client that sends every text in a call
  of its own and collects the answers in input order.
\<close>

fun embedEach ::
  "(string \<Rightarrow> string list \<Rightarrow> error + 'e list) \<Rightarrow> ('e \<Rightarrow> 'v) \<Rightarrow> string \<Rightarrow> string list \<Rightarrow>
   error + 'v list" where
  "embedEach create toF32 embModel [] = Inr []"
| "embedEach create toF32 embModel (t # ts) =
     (case create embModel [t] of
        Inl e \<Rightarrow> Inl e
      | Inr data \<Rightarrow>
          (case embedEach create toF32 embModel ts of
             Inl e \<Rightarrow> Inl e
           | Inr vs \<Rightarrow> Inr (map toF32 data @ vs)))"


section \<open>Vector store (\<^verbatim>\<open>src/src/vectorstore.ts\<close>, class \<^verbatim>\<open>VectorStore\<close>)\<close>

text \<open>
  The database as \<^verbatim>\<open>initTables\<close> declares it. Table \<^verbatim>\<open>chunks\<close> is a list of rows in
  rowid order; its key \<^verbatim>\<open>id INTEGER PRIMARY KEY AUTOINCREMENT\<close> takes one more than the
  largest id ever used, which \<open>chunks_seq\<close> remembers. The virtual table \<^verbatim>\<open>vec_chunks\<close>
  is a list of (rowid, embedding) pairs in rowid order; it assigns its rowid the same way
  (\<open>vec_seq\<close>), and its column \<^verbatim>\<open>embedding FLOAT[dimension]\<close> accepts only vectors of
  that length. A \<^verbatim>\<open>NULL\<close> in \<^verbatim>\<open>vec_rowid\<close> is \<open>None\<close>.
\<close>

record chunk_row =
  row_id :: nat
  file_path :: string
  row_content :: string
  row_hash :: string
  vec_rowid :: "nat option"
  created_at :: int

record 'f db =
  chunks_table :: "chunk_row list"
  chunks_seq :: nat
  vec_chunks :: "(nat \<times> 'f list) list"
  vec_seq :: nat
  dimension :: nat

definition next_rowid :: "nat \<Rightarrow> nat list \<Rightarrow> nat" where
  "next_rowid seq rowids = Suc (fold max rowids seq)"

text \<open>\<^verbatim>\<open>INSERT INTO vec_chunks (embedding) VALUES (?)\<close>, with \<^verbatim>\<open>lastInsertRowid\<close>.\<close>

definition insert_vec :: "'f list \<Rightarrow> 'f db \<Rightarrow> (error + nat) \<times> 'f db" where
  "insert_vec e d =
     (if length e \<noteq> dimension d then (Inl DimensionMismatch, d)
      else
        (let rid = next_rowid (vec_seq d) (map fst (vec_chunks d))
         in (Inr rid, d\<lparr>vec_chunks := vec_chunks d @ [(rid, e)], vec_seq := rid\<rparr>)))"

text \<open>
  \<^verbatim>\<open>INSERT OR REPLACE INTO chunks (file_path, content, hash, vec_rowid, created_at)\<close>:
  a row that has the new row's \<^verbatim>\<open>(file_path, hash)\<close> violates \<^verbatim>\<open>UNIQUE(file_path, hash)\<close>
  and is deleted before the new row is stored under a fresh id.
\<close>

definition insert_or_replace_chunk ::
  "string \<Rightarrow> string \<Rightarrow> string \<Rightarrow> nat option \<Rightarrow> int \<Rightarrow> 'f db \<Rightarrow> nat \<times> 'f db" where
  "insert_or_replace_chunk fp c h vr now d =
     (let kept = filter (\<lambda>r. \<not> (file_path r = fp \<and> row_hash r = h)) (chunks_table d);
          cid = next_rowid (chunks_seq d) (map row_id kept)
      in (cid,
          d\<lparr>chunks_table := kept @ [\<lparr>row_id = cid, file_path = fp, row_content = c, row_hash = h,
                                  vec_rowid = vr, created_at = now\<rparr>],
             chunks_seq := cid\<rparr>))"

text \<open>
  \<^verbatim>\<open>insertChunk\<close>. \<open>now\<close> is the reading of \<^verbatim>\<open>Date.now()\<close>. The embedding goes in
  first; \<^verbatim>\<open>vecRowId || null\<close> turns an undefined or zero row id into \<^verbatim>\<open>NULL\<close>. An
  exception of the first statement leaves the function before the second one; the result
  is the outcome together with the database as the call leaves it.
\<close>

definition insertChunk :: "int \<Rightarrow> 'f DocumentChunk \<Rightarrow> 'f db \<Rightarrow> (error + nat) \<times> 'f db" where
  "insertChunk now chunk d =
     (case (case embedding chunk of
              None \<Rightarrow> (Inr None, d)
            | Some e \<Rightarrow>
                (case insert_vec e d of
                   (Inl err, d') \<Rightarrow> (Inl err, d')
                 | (Inr rid, d') \<Rightarrow> (Inr (Some rid), d'))) of
        (Inl err, d') \<Rightarrow> (Inl err, d')
      | (Inr vecRowId, d') \<Rightarrow>
          (let vr = (case vecRowId of None \<Rightarrow> None
                     | Some r \<Rightarrow> if r = 0 then None else Some r);
               (chunkId, d'') =
                 insert_or_replace_chunk (filePath chunk) (content chunk) (hash chunk) vr now d'
           in (Inr chunkId, d'')))"

text \<open>
  \<^verbatim>\<open>db.transaction(fn)\<close> of better-sqlite3: the body runs; when it throws, the database
  is rolled back to what it was at the start and the exception is passed on; otherwise
  the changes are committed.
\<close>

definition transaction ::
  "('f db \<Rightarrow> (error + 'a) \<times> 'f db) \<Rightarrow> 'f db \<Rightarrow> (error + 'a) \<times> 'f db" where
  "transaction body d =
     (case body d of
        (Inl err, d') \<Rightarrow> (Inl err, d)
      | (Inr x, d') \<Rightarrow> (Inr x, d'))"

text \<open>
  The body of \<^verbatim>\<open>insertChunks\<close>: \<^verbatim>\<open>for (const chunk of chunks) this.insertChunk(chunk)\<close>.
  \<open>clock i\<close> is the time read while chunk \<open>i\<close> of the batch is inserted.
\<close>

fun insertMany :: "(nat \<Rightarrow> int) \<Rightarrow> nat \<Rightarrow> 'f DocumentChunk list \<Rightarrow> 'f db \<Rightarrow> (error + unit) \<times> 'f db" where
  "insertMany clock i [] d = (Inr (), d)"
| "insertMany clock i (chunk # rest) d =
     (case insertChunk (clock i) chunk d of
        (Inl err, d') \<Rightarrow> (Inl err, d')
      | (Inr chunkId, d') \<Rightarrow> insertMany clock (Suc i) rest d')"

definition insertChunks :: "(nat \<Rightarrow> int) \<Rightarrow> 'f DocumentChunk list \<Rightarrow> 'f db \<Rightarrow> (error + unit) \<times> 'f db" where
  "insertChunks clock chunks d = transaction (insertMany clock 0 chunks) d"

text \<open>
  \<^verbatim>\<open>deleteChunksByFile\<close>: the \<^verbatim>\<open>vec_rowid\<close>s of the file's rows are read, the vector rows
  are deleted in the transaction \<^verbatim>\<open>deleteTransaction\<close>, and then a statement of its own
  deletes the file's rows of \<^verbatim>\<open>chunks\<close>.
\<close>

definition select_vec_rowids :: "string \<Rightarrow> 'f db \<Rightarrow> nat list" where
  "select_vec_rowids fp d =
     List.map_filter (\<lambda>r. if file_path r = fp then vec_rowid r else None) (chunks_table d)"

definition deleteVec :: "nat \<Rightarrow> 'f db \<Rightarrow> 'f db" where
  "deleteVec rid d = d\<lparr>vec_chunks := filter (\<lambda>v. fst v \<noteq> rid) (vec_chunks d)\<rparr>"

definition deleteTransaction :: "nat list \<Rightarrow> 'f db \<Rightarrow> 'f db" where
  "deleteTransaction ids d = fold deleteVec ids d"

definition delete_chunk_rows :: "string \<Rightarrow> 'f db \<Rightarrow> 'f db" where
  "delete_chunk_rows fp d = d\<lparr>chunks_table := filter (\<lambda>r. file_path r \<noteq> fp) (chunks_table d)\<rparr>"

definition deleteChunksByFile :: "string \<Rightarrow> 'f db \<Rightarrow> 'f db" where
  "deleteChunksByFile fp d =
     delete_chunk_rows fp (deleteTransaction (select_vec_rowids fp d) d)"


definition fileExists :: "string \<Rightarrow> 'f db \<Rightarrow> bool" where
  "fileExists fp d = (length (filter (\<lambda>r. file_path r = fp) (chunks_table d)) > 0)"

text \<open>\<^verbatim>\<open>SELECT DISTINCT file_path FROM chunks\<close>; the order of the answer is SQLite's choice.\<close>

definition getAllFiles :: "'f db \<Rightarrow> string list" where
  "getAllFiles d = remdups (map file_path (chunks_table d))"

definition getChunkCount :: "'f db \<Rightarrow> nat" where
  "getChunkCount d = length (chunks_table d)"

text \<open>
  \<^verbatim>\<open>similaritySearch\<close>. The SQL function \<^verbatim>\<open>vec_distance_cosine\<close> of sqlite-vec is the
  parameter \<open>dist\<close>; distances are values of an ordered type with \<open>1\<close> and \<open>-\<close>.
  The join \<^verbatim>\<open>FROM vec_chunks v JOIN chunks c ON v.rowid = c.vec_rowid\<close> is read in the order
  of the \<^verbatim>\<open>FROM\<close> clause; \<^verbatim>\<open>ORDER BY distance ASC\<close> is a stable sort; \<^verbatim>\<open>LIMIT ?\<close> with a
  negative number is no limit.
\<close>

definition joined_rows ::
  "('f list \<Rightarrow> 'q \<Rightarrow> 'd) \<Rightarrow> 'q \<Rightarrow> 'f db \<Rightarrow> (chunk_row \<times> 'd) list" where
  "joined_rows dist q d =
     concat (map (\<lambda>v. map (\<lambda>c. (c, dist (snd v) q))
                          (filter (\<lambda>c. vec_rowid c = Some (fst v)) (chunks_table d)))
                 (vec_chunks d))"

definition sql_limit :: "int \<Rightarrow> 'a list \<Rightarrow> 'a list" where
  "sql_limit k rows = (if k < 0 then rows else take (nat k) rows)"

definition ranked_rows ::
  "('f list \<Rightarrow> 'q \<Rightarrow> 'd::linorder) \<Rightarrow> 'q \<Rightarrow> int \<Rightarrow> 'f db \<Rightarrow> (chunk_row \<times> 'd) list" where
  "ranked_rows dist q k d = sql_limit k (sort_key snd (joined_rows dist q d))"

definition similaritySearch ::
  "('f list \<Rightarrow> 'q \<Rightarrow> 'd::{linorder,one,minus}) \<Rightarrow> 'q \<Rightarrow> int \<Rightarrow> 'f db \<Rightarrow> 'd ContextChunk list" where
  "similaritySearch dist queryEmbedding k d =
     map (\<lambda>row. \<lparr>ctx_content = row_content (fst row), ctx_filePath = file_path (fst row),
                  similarity = 1 - snd row\<rparr>)
         (ranked_rows dist queryEmbedding k d)"


section \<open>Predicates of the specification on stores\<close>

text \<open>
  \<open>stored c d\<close>: the store \<open>d\<close> has a chunk row with the source, fingerprint and content of
  \<open>c\<close> whose \<^verbatim>\<open>vec_rowid\<close> leads to a vector row holding the embedding of \<open>c\<close> (or is
  \<^verbatim>\<open>NULL\<close> when \<open>c\<close> has none). \<open>well_paired d\<close>: every row of the vector index is
  referenced by exactly one chunk row.
\<close>

definition stored :: "'f DocumentChunk \<Rightarrow> 'f db \<Rightarrow> bool" where
  "stored c d =
     list_ex (\<lambda>r. file_path r = filePath c \<and> row_hash r = hash c \<and> row_content r = content c
                  \<and> (case embedding c of
                         None \<Rightarrow> vec_rowid r = None
                       | Some e \<Rightarrow>
                           (case vec_rowid r of
                              None \<Rightarrow> False
                            | Some rid \<Rightarrow> (rid, e) \<in> set (vec_chunks d))))
             (chunks_table d)"



section \<open>Example stores\<close>

text \<open>A store for vectors of dimension 2, three well-formed chunks and one whose vector has
  three components.\<close>

definition store_empty :: "int db" where
  "store_empty = \<lparr>chunks_table = [], chunks_seq = 0, vec_chunks = [], vec_seq = 0, dimension = 2\<rparr>"

definition chunk_a_first :: "int DocumentChunk" where
  "chunk_a_first = \<lparr>filePath = ''a.txt'', content = ''hello'', hash = ''h1'', embedding = Some [1, 0]\<rparr>"

definition chunk_a_again :: "int DocumentChunk" where
  "chunk_a_again = \<lparr>filePath = ''a.txt'', content = ''hello'', hash = ''h1'', embedding = Some [0, 1]\<rparr>"

definition chunk_b :: "int DocumentChunk" where
  "chunk_b = \<lparr>filePath = ''b.txt'', content = ''world'', hash = ''h2'', embedding = Some [3, 4]\<rparr>"

definition chunk_bad :: "int DocumentChunk" where
  "chunk_bad = \<lparr>filePath = ''c.txt'', content = ''oops'', hash = ''h3'', embedding = Some [1, 2, 3]\<rparr>"

definition store_a :: "int db" where
  "store_a = snd (insertChunk 10 chunk_a_first store_empty)"

definition store_a_twice :: "int db" where
  "store_a_twice = snd (insertChunk 11 chunk_a_again store_a)"

definition store_ab :: "int db" where
  "store_ab = snd (insertChunk 12 chunk_b store_a)"


text \<open>A distance for the examples: the squared Euclidean distance of integer vectors.\<close>

definition sq_dist :: "int list \<Rightarrow> int list \<Rightarrow> int" where
  "sq_dist v q = sum_list (map (\<lambda>p. (fst p - snd p) * (fst p - snd p)) (zip v q))"


section \<open>Query engine (\<^verbatim>\<open>src/src/query.ts\<close>)\<close>

text \<open>The decimal digits of a number, as the template literal \<^verbatim>\<open>${idx + 1}\<close> prints it.\<close>

fun show_nat :: "nat \<Rightarrow> string" where
  "show_nat n =
     (if n < 10 then [''0123456789'' ! n]
      else show_nat (n div 10) @ [''0123456789'' ! (n mod 10)])"

declare show_nat.simps [simp del]

text \<open>\<^verbatim>\<open>Array.prototype.join\<close>.\<close>

fun join :: "'a list \<Rightarrow> 'a list list \<Rightarrow> 'a list" where
  "join sep [] = []"
| "join sep [x] = x"
| "join sep (x # y # ys) = x @ sep @ join sep (y # ys)"

text \<open>
  A JavaScript \<^verbatim>\<open>Set\<close> keeps its elements in insertion order, and adding an element it
  has changes nothing; \<^verbatim>\<open>new Set(xs)\<close> adds the elements of \<^verbatim>\<open>xs\<close> one after the other and
  \<^verbatim>\<open>[...set]\<close> lists them in that order.
\<close>

definition Set_add :: "'a \<Rightarrow> 'a list \<Rightarrow> 'a list" where
  "Set_add x s = (if x \<in> set s then s else s @ [x])"

definition new_Set :: "'a list \<Rightarrow> 'a list" where
  "new_Set xs = fold Set_add xs []"

record QueryOptions =
  opt_topK :: "int option"
  opt_dbPath :: "string option"

text \<open>
  \<^verbatim>\<open>contextChunks.map((chunk, idx) => `[${idx + 1}] ${chunk.content}`).join('\n\n')\<close>
\<close>

definition contextText :: "'d ContextChunk list \<Rightarrow> string" where
  "contextText contextChunks =
     join [CHR 0x0A, CHR 0x0A]
       (map (\<lambda>(idx, chunk). ''['' @ show_nat (idx + 1) @ ''] '' @ ctx_content chunk)
            (enumerate 0 contextChunks))"

text \<open>
  \<^verbatim>\<open>queryRag\<close>. \<open>openDb\<close> gives the database that \<^verbatim>\<open>new VectorStore(path)\<close> opens at a
  path. \<^verbatim>\<open>options?.topK || config.topK\<close>: an absent or zero \<^verbatim>\<open>topK\<close> falls back to the
  configuration. The query embedding is what \<open>generateEmbedding\<close> returns, \<open>None\<close> when
  it is \<^verbatim>\<open>undefined\<close>, and is handed to the distance function as it is.
\<close>

definition queryRag ::
  "RagConfig \<Rightarrow> (string \<Rightarrow> string list \<Rightarrow> error + 'e list) \<Rightarrow> ('e \<Rightarrow> 'v) \<Rightarrow>
   ('f list \<Rightarrow> 'v option \<Rightarrow> 'd::{linorder,one,minus}) \<Rightarrow> (string \<Rightarrow> 'f db) \<Rightarrow>
   string \<Rightarrow> QueryOptions option \<Rightarrow> error + 'd QueryResult" where
  "queryRag cfg create toF32 dist openDb question options =
     (case getConfig cfg of
        Inl err \<Rightarrow> Inl err
      | Inr config \<Rightarrow>
          (let k = (case (case options of None \<Rightarrow> None | Some opts \<Rightarrow> opt_topK opts) of
                      None \<Rightarrow> topK config
                    | Some n \<Rightarrow> if n = 0 then topK config else n)
           in case generateEmbedding cfg create toF32 question None of
                Inl err \<Rightarrow> Inl err
              | Inr queryEmbedding \<Rightarrow>
                  (let path = (case (case options of None \<Rightarrow> None | Some opts \<Rightarrow> opt_dbPath opts) of
                                 None \<Rightarrow> dbPath config
                               | Some p \<Rightarrow> if p = [] then dbPath config else p);
                       contextChunks = similaritySearch dist queryEmbedding k (openDb path)
                   in Inr \<lparr>qr_text = contextText contextChunks,
                           qr_context = contextChunks,
                           qr_citations = new_Set (map ctx_filePath contextChunks)\<rparr>)))"

text \<open>
  The specification's words. The context text: the contents in rank order, each after its
  rank in brackets and a space, counted from the given rank, with a blank line between two
  of them. The citations: the values at the positions where a value occurs for the first
  time, in the order of these positions.
\<close>

fun numbered :: "nat \<Rightarrow> string list \<Rightarrow> string" where
  "numbered i [] = []"
| "numbered i [c] = ''['' @ show_nat i @ ''] '' @ c"
| "numbered i (c # c' # cs) =
     ''['' @ show_nat i @ ''] '' @ c @ [CHR 0x0A, CHR 0x0A] @ numbered (Suc i) (c' # cs)"

definition first_occurrences :: "'a list \<Rightarrow> 'a list" where
  "first_occurrences xs =
     map (\<lambda>i. xs ! i) (filter (\<lambda>i. xs ! i \<notin> set (take i xs)) [0..<length xs])"


text \<open>A configuration, an embedding API and a distance on an optional query vector.\<close>

definition example_config :: RagConfig where
  "example_config =
     \<lparr>apiKey = ''k'', embeddingModel = ''text-embedding-3-small'', dbPath = ''db'',
      config_chunkSize = 1000, config_chunkOverlap = 200, topK = 5\<rparr>"

definition example_api :: "string \<Rightarrow> string list \<Rightarrow> error + int list list" where
  "example_api m batch = Inr (map (\<lambda>t. [int (length t), 3]) batch)"

definition sq_dist_opt :: "int list \<Rightarrow> int list option \<Rightarrow> int" where
  "sq_dist_opt v q = (case q of None \<Rightarrow> 0 | Some w \<Rightarrow> sq_dist v w)"


section \<open>Chunker (\<^verbatim>\<open>chunker.ts\<close>, here \<^verbatim>\<open>src/unnamed/part_003\<close>)\<close>

text \<open>
  A character of the model is a code unit below 256. \<open>is_space\<close> is the class \<^verbatim>\<open>\s\<close> of
  regular expressions there (tab, line feed, vertical tab, form feed, carriage return,
  space, no-break space), which is also what \<^verbatim>\<open>trim\<close> strips; \<open>sentence_end\<close> is the
  class \<^verbatim>\<open>[.!?]\<close>.
\<close>

definition is_space :: "char \<Rightarrow> bool" where
  "is_space c = (c \<in> set [CHR 0x09, CHR 0x0A, CHR 0x0B, CHR 0x0C, CHR 0x0D, CHR 0x20, CHR 0xA0])"

definition sentence_end :: "char \<Rightarrow> bool" where
  "sentence_end c = (c = CHR ''.'' \<or> c = CHR ''!'' \<or> c = CHR ''?'')"

text \<open>
  \<^verbatim>\<open>text.replace(/\r\n/g, '\n').replace(/\r/g, '\n')\<close>
\<close>

fun replace_crlf :: "string \<Rightarrow> string" where
  "replace_crlf (a # b # cs) =
     (if a = CHR 0x0D \<and> b = CHR 0x0A then CHR 0x0A # replace_crlf cs
      else a # replace_crlf (b # cs))"
| "replace_crlf cs = cs"

definition replace_cr :: "string \<Rightarrow> string" where
  "replace_cr cs = map (\<lambda>c. if c = CHR 0x0D then CHR 0x0A else c) cs"

definition normalize_newlines :: "string \<Rightarrow> string" where
  "normalize_newlines txt = replace_cr (replace_crlf txt)"

text \<open>
  \<^verbatim>\<open>text.split(/(?<=[.!?])\s+/)\<close>. The scan keeps whether the character before the
  position is one of \<^verbatim>\<open>.!?\<close> (the lookbehind) and the piece read so far. A separator is
  a maximal run of white space that starts right after such a character; the piece before
  it is emitted, and the text left after the last separator is the last piece (the empty
  string when the text ends with a separator).
\<close>

function split_from :: "bool \<Rightarrow> string \<Rightarrow> string \<Rightarrow> string list" where
  "split_from after_end piece [] = [piece]"
| "split_from after_end piece (c # cs) =
     (if after_end \<and> is_space c then piece # split_from False [] (dropWhile is_space cs)
      else split_from (sentence_end c) (piece @ [c]) cs)"
  by pat_completeness auto
termination
  by (relation "measure (\<lambda>(after_end, piece, cs). length cs)")
     (auto simp: length_dropWhile_le less_Suc_eq_le)

definition split_sentences :: "string \<Rightarrow> string list" where
  "split_sentences txt = split_from False [] txt"

definition trim :: "string \<Rightarrow> string" where
  "trim s = rev (dropWhile is_space (rev (dropWhile is_space s)))"

text \<open>
  \<^verbatim>\<open>String.prototype.slice(start, end)\<close> with its negative indices counted from the end,
  and \<^verbatim>\<open>slice(start)\<close>.
\<close>

definition slice :: "'a list \<Rightarrow> int \<Rightarrow> int \<Rightarrow> 'a list" where
  "slice s start end =
     (let len = int (length s);
          from = (if start < 0 then max (len + start) 0 else min start len);
          to = (if end < 0 then max (len + end) 0 else min end len)
      in take (nat (to - from)) (drop (nat from) s))"

definition slice_from :: "'a list \<Rightarrow> int \<Rightarrow> 'a list" where
  "slice_from s start = slice s start (int (length s))"

text \<open>
  \<^verbatim>\<open>splitByCharacter\<close>: the loop \<^verbatim>\<open>while (start < text.length)\<close>. It does not end when
  \<^verbatim>\<open>chunkSize - overlap\<close> is not positive and the text is not empty; the result is then
  \<open>None\<close>.
\<close>

partial_function (option) splitByCharacter_loop ::
  "string \<Rightarrow> int \<Rightarrow> int \<Rightarrow> int \<Rightarrow> string list \<Rightarrow> string list option" where
  "splitByCharacter_loop txt chunkSize overlap start chunks =
     (if start < int (length txt) then
        splitByCharacter_loop txt chunkSize overlap (start + (chunkSize - overlap))
          (chunks @ [slice txt start (min (start + chunkSize) (int (length txt)))])
      else Some chunks)"

declare splitByCharacter_loop.simps [code]

definition splitByCharacter :: "string \<Rightarrow> int \<Rightarrow> int \<Rightarrow> string list option" where
  "splitByCharacter txt chunkSize overlap = splitByCharacter_loop txt chunkSize overlap 0 []"

text \<open>
  \<^verbatim>\<open>chunkText\<close>. \<open>push_current\<close> is \<^verbatim>\<open>if (currentChunk) chunks.push(currentChunk.trim())\<close>;
  \<open>chunk_sentence\<close> is the body of the loop over the sentences, on the pair of
  \<^verbatim>\<open>chunks\<close> and \<^verbatim>\<open>currentChunk\<close>.
\<close>

definition push_current :: "string list \<Rightarrow> string \<Rightarrow> string list" where
  "push_current chunks currentChunk =
     (if currentChunk \<noteq> [] then chunks @ [trim currentChunk] else chunks)"

definition chunk_sentence ::
  "int \<Rightarrow> int \<Rightarrow> string \<Rightarrow> string list \<times> string \<Rightarrow> (string list \<times> string) option" where
  "chunk_sentence chunkSize chunkOverlap sentence st =
     (case st of (chunks, currentChunk) \<Rightarrow>
        if int (length sentence) > chunkSize then
          (case splitByCharacter sentence chunkSize chunkOverlap of
             None \<Rightarrow> None
           | Some parts \<Rightarrow> Some (push_current chunks currentChunk @ parts, []))
        else if int (length currentChunk) + int (length sentence) > chunkSize then
          (let chunks' = push_current chunks currentChunk
           in if length chunks' > 0 \<and> chunkOverlap > 0 then
                Some (chunks', slice_from (last chunks') (- chunkOverlap) @ '' '' @ sentence)
              else Some (chunks', sentence))
        else Some (chunks, currentChunk @ (if currentChunk \<noteq> [] then '' '' else []) @ sentence))"

fun chunk_sentences ::
  "int \<Rightarrow> int \<Rightarrow> string list \<Rightarrow> string list \<times> string \<Rightarrow> (string list \<times> string) option" where
  "chunk_sentences chunkSize chunkOverlap [] st = Some st"
| "chunk_sentences chunkSize chunkOverlap (sentence # rest) st =
     (case chunk_sentence chunkSize chunkOverlap sentence st of
        None \<Rightarrow> None
      | Some st' \<Rightarrow> chunk_sentences chunkSize chunkOverlap rest st')"

definition chunkText :: "string \<Rightarrow> int \<Rightarrow> int \<Rightarrow> string list option" where
  "chunkText txt chunkSize chunkOverlap =
     (case chunk_sentences chunkSize chunkOverlap (split_sentences (normalize_newlines txt)) ([], []) of
        None \<Rightarrow> None
      | Some (chunks, currentChunk) \<Rightarrow>
          Some (filter (\<lambda>chunk. length chunk > 0)
                  (if trim currentChunk \<noteq> [] then chunks @ [trim currentChunk] else chunks)))"


text \<open>
  The specification's words for the split of an oversized unit: a sliding window of length
  \<open>chunkSize\<close> that advances by the stride \<open>chunkSize - overlap\<close> until the unit is
  exhausted. \<open>window_starts\<close> lists the positions of the windows.
\<close>

function window_starts :: "int \<Rightarrow> int \<Rightarrow> int \<Rightarrow> int list" where
  "window_starts len stride start =
     (if start < len \<and> 0 < stride then start # window_starts len stride (start + stride) else [])"
  by pat_completeness auto
termination
  by (relation "measure (\<lambda>(len, stride, start). nat (len - start))") auto

declare window_starts.simps [simp del]

definition window :: "string \<Rightarrow> int \<Rightarrow> int \<Rightarrow> string" where
  "window txt chunkSize start = take (nat chunkSize) (drop (nat start) txt)"

text \<open>
  The invariant of the loop for a bound \<open>b\<close>: no chunk and no buffer is longer than \<open>b\<close>.
\<close>

definition within :: "int \<Rightarrow> string list \<times> string \<Rightarrow> bool" where
  "within b st = ((\<forall>c \<in> set (fst st). int (length c) \<le> b) \<and> int (length (snd st)) \<le> b)"


section \<open>Chunker with the origin of every chunk\<close>

text \<open>
  The same loop with every chunk labelled by the branch that pushed it: \<open>Accumulated\<close> for
  a trimmed buffer of sentences (\<^verbatim>\<open>chunks.push(currentChunk.trim())\<close>),
  \<open>CharacterSplit\<close> for a piece of an oversized sentence (\<^verbatim>\<open>chunks.push(...parts)\<close>).
  Forgetting the labels gives \<open>chunkText\<close> (lemma \<open>chunkText_untag\<close>).
\<close>

datatype origin = Accumulated | CharacterSplit

definition push_current_tagged :: "(origin \<times> string) list \<Rightarrow> string \<Rightarrow> (origin \<times> string) list" where
  "push_current_tagged chunks currentChunk =
     (if currentChunk \<noteq> [] then chunks @ [(Accumulated, trim currentChunk)] else chunks)"

definition chunk_sentence_tagged ::
  "int \<Rightarrow> int \<Rightarrow> string \<Rightarrow> (origin \<times> string) list \<times> string \<Rightarrow>
   ((origin \<times> string) list \<times> string) option" where
  "chunk_sentence_tagged chunkSize chunkOverlap sentence st =
     (case st of (chunks, currentChunk) \<Rightarrow>
        if int (length sentence) > chunkSize then
          (case splitByCharacter sentence chunkSize chunkOverlap of
             None \<Rightarrow> None
           | Some parts \<Rightarrow>
               Some (push_current_tagged chunks currentChunk @ map (Pair CharacterSplit) parts, []))
        else if int (length currentChunk) + int (length sentence) > chunkSize then
          (let chunks' = push_current_tagged chunks currentChunk
           in if length chunks' > 0 \<and> chunkOverlap > 0 then
                Some (chunks', slice_from (snd (last chunks')) (- chunkOverlap) @ '' '' @ sentence)
              else Some (chunks', sentence))
        else Some (chunks, currentChunk @ (if currentChunk \<noteq> [] then '' '' else []) @ sentence))"

fun chunk_sentences_tagged ::
  "int \<Rightarrow> int \<Rightarrow> string list \<Rightarrow> (origin \<times> string) list \<times> string \<Rightarrow>
   ((origin \<times> string) list \<times> string) option" where
  "chunk_sentences_tagged chunkSize chunkOverlap [] st = Some st"
| "chunk_sentences_tagged chunkSize chunkOverlap (sentence # rest) st =
     (case chunk_sentence_tagged chunkSize chunkOverlap sentence st of
        None \<Rightarrow> None
      | Some st' \<Rightarrow> chunk_sentences_tagged chunkSize chunkOverlap rest st')"

definition chunkText_tagged :: "string \<Rightarrow> int \<Rightarrow> int \<Rightarrow> (origin \<times> string) list option" where
  "chunkText_tagged txt chunkSize chunkOverlap =
     (case chunk_sentences_tagged chunkSize chunkOverlap
             (split_sentences (normalize_newlines txt)) ([], []) of
        None \<Rightarrow> None
      | Some (chunks, currentChunk) \<Rightarrow>
          Some (filter (\<lambda>chunk. length (snd chunk) > 0)
                  (if trim currentChunk \<noteq> [] then chunks @ [(Accumulated, trim currentChunk)]
                   else chunks)))"

definition untag :: "(origin \<times> string) list \<times> string \<Rightarrow> string list \<times> string" where
  "untag st = (map snd (fst st), snd st)"

text \<open>
  \<open>overlaps\<close>: the last \<open>chunkOverlap\<close> characters of \<open>a\<close>, without their leading white
  space, are a prefix of \<open>b\<close>. \<open>carried\<close> and \<open>tagged_inv\<close> are the invariant of the
  labelled loop.
\<close>

definition overlaps :: "int \<Rightarrow> string \<Rightarrow> string \<Rightarrow> bool" where
  "overlaps chunkOverlap a b = prefix (dropWhile is_space (slice_from a (- chunkOverlap))) b"

definition carried :: "int \<Rightarrow> origin \<times> string \<Rightarrow> origin \<times> string \<Rightarrow> bool" where
  "carried chunkOverlap a b =
     (fst a = Accumulated \<and> fst b = Accumulated \<longrightarrow>
        overlaps chunkOverlap (snd a) (snd b) \<and> (snd b = [] \<longrightarrow> snd a = []))"

definition tagged_inv :: "int \<Rightarrow> (origin \<times> string) list \<times> string \<Rightarrow> bool" where
  "tagged_inv chunkOverlap st =
     (successively (carried chunkOverlap) (fst st)
      \<and> (\<forall>c \<in> set (fst st). fst c = CharacterSplit \<longrightarrow> snd c \<noteq> [])
      \<and> (\<forall>c \<in> set (fst st). fst c = Accumulated \<longrightarrow> snd c = [] \<or> \<not> is_space (last (snd c)))
      \<and> (fst st \<noteq> [] \<and> fst (last (fst st)) = Accumulated \<longrightarrow>
            (\<exists>rest. snd st = slice_from (snd (last (fst st))) (- chunkOverlap) @ CHR '' '' # rest)))"


section \<open>Indexing pipeline (\<^verbatim>\<open>indexer.ts\<close>, second part of \<^verbatim>\<open>src/src/vectorstore.ts\<close>)\<close>

text \<open>
  What the pipeline reads from outside: \<open>found_files\<close> is the list that
  \<^verbatim>\<open>getAllFiles(directory, extensions, ignorePatterns)\<close> returns; \<open>path_relative\<close> is
  \<^verbatim>\<open>path.relative(process.cwd(), p)\<close> and \<open>path_join_cwd\<close> is
  \<^verbatim>\<open>path.join(process.cwd(), p)\<close>; \<open>existsSync\<close>, \<open>statSync\<close> and \<open>readFileSync\<close> are
  those of \<^verbatim>\<open>fs\<close> (the last two can throw); \<open>hashContent\<close> is the MD5 digest of the
  chunker; \<open>embeddings_create\<close> and \<open>toFloat32Array\<close> are the embedding API;
  \<open>date_now p i\<close> is the time read while chunk \<open>i\<close> of source \<open>p\<close> is inserted.
\<close>

record ('e, 'f) world =
  found_files :: "string list"
  path_relative :: "string \<Rightarrow> string"
  path_join_cwd :: "string \<Rightarrow> string"
  existsSync :: "string \<Rightarrow> bool"
  statSync :: "string \<Rightarrow> error + unit"
  readFileSync :: "string \<Rightarrow> error + string"
  hashContent :: "string \<Rightarrow> string"
  embeddings_create :: "string \<Rightarrow> string list \<Rightarrow> error + 'e list"
  toFloat32Array :: "'e \<Rightarrow> 'f list"
  date_now :: "string \<Rightarrow> nat \<Rightarrow> int"

record IndexResult =
  filesProcessed :: nat
  chunksCreated :: nat

record ReindexResult = IndexResult +
  filesUpdated :: nat

text \<open>
  \<^verbatim>\<open>chunks.map((chunk, idx) => ({filePath: relativePath, content: chunk, hash:
  hashContent(chunk), embedding: embeddings[idx]}))\<close>; an index past the end of
  \<^verbatim>\<open>embeddings\<close> reads \<^verbatim>\<open>undefined\<close>.
\<close>

definition documentChunks ::
  "('e, 'f) world \<Rightarrow> string \<Rightarrow> string list \<Rightarrow> 'f list list \<Rightarrow> 'f DocumentChunk list" where
  "documentChunks w relativePath chunks embeddings =
     map (\<lambda>(idx, chunk).
            \<lparr>filePath = relativePath, content = chunk, hash = hashContent w chunk,
             embedding = (if idx < length embeddings then Some (embeddings ! idx) else None)\<rparr>)
         (enumerate 0 chunks)"

text \<open>
  The part of the loop body that \<^verbatim>\<open>indexDocuments\<close> and \<^verbatim>\<open>reindexDocuments\<close> have in
  common: read the file, chunk it, stop (\<^verbatim>\<open>continue\<close>, here \<open>Inr None\<close>) when there is no
  chunk, embed the chunks, insert them, and give the number of chunks. The result is
  \<open>None\<close> when \<open>chunkText\<close> does not return, and otherwise the outcome with the store as
  it is left.
\<close>

definition index_file ::
  "('e, 'f) world \<Rightarrow> RagConfig \<Rightarrow> string \<Rightarrow> string \<Rightarrow> 'f db \<Rightarrow>
   ((error + nat option) \<times> 'f db) option" where
  "index_file w cfg path relativePath d =
     (case readFileSync w path of
        Inl err \<Rightarrow> Some (Inl err, d)
      | Inr fileContent \<Rightarrow>
          (case chunkText fileContent (config_chunkSize cfg) (config_chunkOverlap cfg) of
             None \<Rightarrow> None
           | Some chunks \<Rightarrow>
               if length chunks = 0 then Some (Inr None, d)
               else
                 (case generateEmbeddings cfg (embeddings_create w) (toFloat32Array w) chunks None of
                    Inl err \<Rightarrow> Some (Inl err, d)
                  | Inr embeddings \<Rightarrow>
                      (case insertChunks (date_now w relativePath)
                              (documentChunks w relativePath chunks embeddings) d of
                         (Inl err, d') \<Rightarrow> Some (Inl err, d')
                       | (Inr u, d') \<Rightarrow>
                           Some (Inr (Some (length (documentChunks w relativePath chunks embeddings))),
                                 d')))))"

fun index_files ::
  "('e, 'f) world \<Rightarrow> RagConfig \<Rightarrow> string list \<Rightarrow> nat \<Rightarrow> 'f db \<Rightarrow>
   ((error + nat) \<times> 'f db) option" where
  "index_files w cfg [] totalChunks d = Some (Inr totalChunks, d)"
| "index_files w cfg (path # rest) totalChunks d =
     (case index_file w cfg path (path_relative w path) d of
        None \<Rightarrow> None
      | Some (Inl err, d') \<Rightarrow> Some (Inl err, d')
      | Some (Inr None, d') \<Rightarrow> index_files w cfg rest totalChunks d'
      | Some (Inr (Some n), d') \<Rightarrow> index_files w cfg rest (totalChunks + n) d')"

definition indexDocuments ::
  "('e, 'f) world \<Rightarrow> RagConfig \<Rightarrow> 'f db \<Rightarrow> ((error + IndexResult) \<times> 'f db) option" where
  "indexDocuments w cfg d =
     (case getConfig cfg of
        Inl err \<Rightarrow> Some (Inl err, d)
      | Inr config \<Rightarrow>
          (case index_files w config (found_files w) 0 d of
             None \<Rightarrow> None
           | Some (Inl err, d') \<Rightarrow> Some (Inl err, d')
           | Some (Inr totalChunks, d') \<Rightarrow>
               Some (Inr \<lparr>filesProcessed = length (found_files w), chunksCreated = totalChunks\<rparr>,
                     d')))"

text \<open>
  \<^verbatim>\<open>reindexDocuments\<close>: the loop over \<^verbatim>\<open>existingFiles\<close> that removes the sources no longer
  on disk, and the loop over the files found. In the source the counter of both loops is
  \<^verbatim>\<open>filesUpdated\<close>.
\<close>

fun remove_deleted :: "('e, 'f) world \<Rightarrow> string list \<Rightarrow> nat \<Rightarrow> 'f db \<Rightarrow> nat \<times> 'f db" where
  "remove_deleted w [] updated d = (updated, d)"
| "remove_deleted w (existingFile # rest) updated d =
     (if \<not> existsSync w (path_join_cwd w existingFile) then
        remove_deleted w rest (updated + 1) (deleteChunksByFile existingFile d)
      else remove_deleted w rest updated d)"

fun reindex_files ::
  "('e, 'f) world \<Rightarrow> RagConfig \<Rightarrow> string list \<Rightarrow> string list \<Rightarrow> nat \<Rightarrow> nat \<Rightarrow> 'f db \<Rightarrow>
   ((error + nat \<times> nat) \<times> 'f db) option" where
  "reindex_files w cfg existingFiles [] updated totalChunks d =
     Some (Inr (updated, totalChunks), d)"
| "reindex_files w cfg existingFiles (path # rest) updated totalChunks d =
     (let relativePath = path_relative w path in
      case statSync w path of
        Inl err \<Rightarrow> Some (Inl err, d)
      | Inr stats \<Rightarrow>
          (let needsUpdate = (relativePath \<notin> set existingFiles);
               needsUpdate' = (if \<not> needsUpdate \<and> relativePath \<in> set existingFiles then True
                               else needsUpdate)
           in if \<not> needsUpdate' then
                reindex_files w cfg existingFiles rest updated totalChunks d
              else
                (let d1 = (if relativePath \<in> set existingFiles
                           then deleteChunksByFile relativePath d else d)
                 in case index_file w cfg path relativePath d1 of
                      None \<Rightarrow> None
                    | Some (Inl err, d') \<Rightarrow> Some (Inl err, d')
                    | Some (Inr None, d') \<Rightarrow>
                        reindex_files w cfg existingFiles rest updated totalChunks d'
                    | Some (Inr (Some n), d') \<Rightarrow>
                        reindex_files w cfg existingFiles rest (updated + 1)
                          (totalChunks + n) d')))"

definition reindexDocuments ::
  "('e, 'f) world \<Rightarrow> RagConfig \<Rightarrow> 'f db \<Rightarrow> ((error + ReindexResult) \<times> 'f db) option" where
  "reindexDocuments w cfg d =
     (case getConfig cfg of
        Inl err \<Rightarrow> Some (Inl err, d)
      | Inr config \<Rightarrow>
          (let existingFiles = new_Set (getAllFiles d);
               (updated, d1) = remove_deleted w existingFiles 0 d
           in case reindex_files w config existingFiles (found_files w) updated 0 d1 of
                None \<Rightarrow> None
              | Some (Inl err, d') \<Rightarrow> Some (Inl err, d')
              | Some (Inr (updated', totalChunks), d') \<Rightarrow>
                  Some (Inr \<lparr>filesProcessed = length (found_files w), chunksCreated = totalChunks,
                             filesUpdated = updated'\<rparr>,
                        d')))"

definition example_world :: "(int list, int) world" where
  "example_world =
     \<lparr>found_files = [''/w/docs/b.txt''],
      path_relative = drop 3,
      path_join_cwd = (\<lambda>p. ''/w/'' @ p),
      existsSync = (\<lambda>p. p = ''/w/docs/b.txt''),
      statSync = (\<lambda>p. Inr ()),
      readFileSync = (\<lambda>p. Inr ''Hi. Yo.''),
      hashContent = (\<lambda>c. ''md5:'' @ c),
      embeddings_create = (\<lambda>m batch. Inr (map (\<lambda>t. [int (length t), 1]) batch)),
      toFloat32Array = id,
      date_now = (\<lambda>p i. 30)\<rparr>"

definition example_cfg :: RagConfig where
  "example_cfg = example_config\<lparr>config_chunkSize := 4, config_chunkOverlap := 1\<rparr>"


text \<open>
  The sources that have a chunk row.
\<close>

definition sources :: "'f db \<Rightarrow> string set" where
  "sources d = file_path ` set (chunks_table d)"


text \<open>
  The store after the example run of \<open>reindexDocuments\<close>.
\<close>

definition store_reindexed :: "int db" where
  "store_reindexed =
     \<lparr>chunks_table =
        [\<lparr>row_id = 2, file_path = ''docs/b.txt'', row_content = ''Hi.'',
          row_hash = ''md5:Hi.'', vec_rowid = Some 2, created_at = 30\<rparr>,
         \<lparr>row_id = 3, file_path = ''docs/b.txt'', row_content = ''. Yo.'',
          row_hash = ''md5:. Yo.'', vec_rowid = Some 3, created_at = 30\<rparr>],
      chunks_seq = 3, vec_chunks = [(2, [3, 1]), (3, [5, 1])], vec_seq = 3,
      dimension = 2\<rparr>"


section \<open>Embedding client: batching is transparent\<close>

lemma generateEmbeddings_loop_map:
  assumes api: "\<And>batch. batch \<noteq> [] \<Longrightarrow> length batch \<le> BATCH_SIZE \<Longrightarrow>
                  create m batch = Inr (map f batch)"
  shows "generateEmbeddings_loop create toF32 m texts i acc =
         Inr (acc @ map (toF32 \<circ> f) (drop i texts))"
  using api
proof (induction create toF32 m texts i acc rule: generateEmbeddings_loop.induct)
  case (1 create toF32 m texts i acc)
  show ?case
  proof (cases "i < length texts")
    case False
    then show ?thesis by (subst generateEmbeddings_loop.simps) simp
  next
    case True
    let ?batch = "take BATCH_SIZE (drop i texts)"
    have ne: "?batch \<noteq> []" using True by (simp add: BATCH_SIZE_def)
    have call: "create m ?batch = Inr (map f ?batch)"
      using "1.prems"[of ?batch] ne by simp
    have step: "generateEmbeddings_loop create toF32 m texts i acc =
                generateEmbeddings_loop create toF32 m texts (i + BATCH_SIZE)
                  (acc @ map toF32 (map f ?batch))"
      using True call by (subst generateEmbeddings_loop.simps) simp
    have rest: "generateEmbeddings_loop create toF32 m texts (i + BATCH_SIZE)
                  (acc @ map toF32 (map f ?batch)) =
                Inr ((acc @ map toF32 (map f ?batch)) @ map (toF32 \<circ> f) (drop (i + BATCH_SIZE) texts))"
      using "1.IH"[OF True call] "1.prems" by blast
    have split: "drop i texts = ?batch @ drop (i + BATCH_SIZE) texts"
      by (metis add.commute append_take_drop_id drop_drop)
    have "map (toF32 \<circ> f) (drop i texts) =
          map toF32 (map f ?batch) @ map (toF32 \<circ> f) (drop (i + BATCH_SIZE) texts)"
      by (subst split) simp
    then have "acc @ map (toF32 \<circ> f) (drop i texts) =
          (acc @ map toF32 (map f ?batch)) @ map (toF32 \<circ> f) (drop (i + BATCH_SIZE) texts)"
      by simp
    with step rest show ?thesis by (simp only:)
  qed
qed

lemma embedEach_map:
  assumes api: "\<And>batch. batch \<noteq> [] \<Longrightarrow> length batch \<le> BATCH_SIZE \<Longrightarrow>
                  create m batch = Inr (map f batch)"
  shows "embedEach create toF32 m texts = Inr (map (toF32 \<circ> f) texts)"
proof (induction texts)
  case Nil
  then show ?case by simp
next
  case (Cons t ts)
  have "create m [t] = Inr (map f [t])"
    by (rule api) (simp_all add: BATCH_SIZE_def)
  with Cons show ?case by simp
qed

text \<open>
  C7. If every call of the embedding API (on a non-empty batch of at most 100 texts)
  returns one vector per input, in input order, then \<open>generateEmbeddings\<close> returns exactly
  one vector per text, in the order of the texts, whatever the number of batches: it equals
  the naive one-text-per-call client. \<open>generateEmbedding\<close> is element 0 of
  \<open>generateEmbeddings\<close> on the one-element list.
\<close>

theorem generateEmbeddings_batching_transparent:
  assumes key: "apiKey cfg \<noteq> []"
    and api: "\<And>batch. batch \<noteq> [] \<Longrightarrow> length batch \<le> 100 \<Longrightarrow>
                create (model_or_default model cfg) batch = Inr (map f batch)"
  shows "generateEmbeddings cfg create toF32 texts model = Inr (map (toF32 \<circ> f) texts)
       \<and> generateEmbeddings cfg create toF32 texts model
           = embedEach create toF32 (model_or_default model cfg) texts
       \<and> (\<exists>vs. generateEmbeddings cfg create toF32 texts model = Inr vs
              \<and> length vs = length texts)
       \<and> generateEmbedding cfg create toF32 txt model = Inr (Some (toF32 (f txt)))
       \<and> (\<exists>vs. generateEmbeddings cfg create toF32 [txt] model = Inr vs
              \<and> generateEmbedding cfg create toF32 txt model = Inr (Some (vs ! 0)))"
proof -
  have api': "\<And>batch. batch \<noteq> [] \<Longrightarrow> length batch \<le> BATCH_SIZE \<Longrightarrow>
                create (model_or_default model cfg) batch = Inr (map f batch)"
    using api by (simp add: BATCH_SIZE_def)
  have many: "generateEmbeddings cfg create toF32 ts model = Inr (map (toF32 \<circ> f) ts)" for ts
    using key generateEmbeddings_loop_map[of create "model_or_default model cfg" f toF32 ts 0 "[]"] api'
    by (simp add: generateEmbeddings_def getConfig_def)
  have each: "embedEach create toF32 (model_or_default model cfg) texts = Inr (map (toF32 \<circ> f) texts)"
    using embedEach_map[of create "model_or_default model cfg" f toF32 texts] api' by blast
  have one: "generateEmbedding cfg create toF32 txt model = Inr (Some (toF32 (f txt)))"
    by (simp add: generateEmbedding_def many)
  show ?thesis
    using many[of texts] many[of "[txt]"] each one by simp
qed

theorem generateEmbeddings_batching_transparent_witness:
  "generateEmbeddings
     \<lparr>apiKey = ''k'', embeddingModel = ''text-embedding-3-small'', dbPath = ''db'',
      config_chunkSize = 1000, config_chunkOverlap = 200, topK = 5\<rparr>
     (\<lambda>m batch. Inr (map length batch)) int (replicate 250 ''ab'') None
   = Inr (replicate 250 2)
   \<and> generateEmbedding
     \<lparr>apiKey = ''k'', embeddingModel = ''text-embedding-3-small'', dbPath = ''db'',
      config_chunkSize = 1000, config_chunkOverlap = 200, topK = 5\<rparr>
     (\<lambda>m batch. Inr (map length batch)) int ''abc'' None
   = Inr (Some 3)"
proof -
  let ?cfg = "\<lparr>apiKey = ''k'', embeddingModel = ''text-embedding-3-small'', dbPath = ''db'',
      config_chunkSize = 1000, config_chunkOverlap = 200, topK = 5\<rparr>"
  let ?create = "\<lambda>(m::string) (batch::string list). (Inr (map length batch) :: error + nat list)"
  have key: "apiKey ?cfg \<noteq> []" by simp
  have api: "?create (model_or_default None ?cfg) batch = Inr (map length batch)" for batch
    by simp
  have "generateEmbeddings ?cfg ?create int (replicate 250 ''ab'') None
          = Inr (map (int \<circ> length) (replicate 250 ''ab''))"
       "generateEmbedding ?cfg ?create int ''abc'' None = Inr (Some (int (length ''abc'')))"
    using generateEmbeddings_batching_transparent[of ?cfg ?create None length int
        "replicate 250 ''ab''" "''abc''"] key api
    by blast+
  then show ?thesis by simp
qed


section \<open>Vector store: insertion, deletion\<close>

lemmas store_defs = insertChunk_def insert_vec_def insert_or_replace_chunk_def next_rowid_def
  store_empty_def chunk_a_first_def chunk_a_again_def chunk_b_def chunk_bad_def

lemma store_a_eq:
  "store_a = \<lparr>chunks_table =
       [\<lparr>row_id = 1, file_path = ''a.txt'', row_content = ''hello'', row_hash = ''h1'',
         vec_rowid = Some 1, created_at = 10\<rparr>],
     chunks_seq = 1, vec_chunks = [(1, [1, 0])], vec_seq = 1, dimension = 2\<rparr>"
  by (simp add: store_a_def store_defs)

lemma store_a_twice_eq:
  "store_a_twice = \<lparr>chunks_table =
       [\<lparr>row_id = 2, file_path = ''a.txt'', row_content = ''hello'', row_hash = ''h1'',
         vec_rowid = Some 2, created_at = 11\<rparr>],
     chunks_seq = 2, vec_chunks = [(1, [1, 0]), (2, [0, 1])], vec_seq = 2, dimension = 2\<rparr>"
  by (simp add: store_a_twice_def store_a_eq store_defs)

lemma store_ab_eq:
  "store_ab = \<lparr>chunks_table =
       [\<lparr>row_id = 1, file_path = ''a.txt'', row_content = ''hello'', row_hash = ''h1'',
         vec_rowid = Some 1, created_at = 10\<rparr>,
        \<lparr>row_id = 2, file_path = ''b.txt'', row_content = ''world'', row_hash = ''h2'',
         vec_rowid = Some 2, created_at = 12\<rparr>],
     chunks_seq = 2, vec_chunks = [(1, [1, 0]), (2, [3, 4])], vec_seq = 2, dimension = 2\<rparr>"
  by (simp add: store_ab_def store_a_eq store_defs)

text \<open>
  C1, at a concrete input. The store \<open>store_a\<close> holds one chunk of \<^verbatim>\<open>a.txt\<close> with fingerprint
  \<^verbatim>\<open>h1\<close>, paired with vector row 1. Inserting a chunk with the same source and fingerprint
  succeeds and leaves a single chunk row for that pair (the old row is overwritten, there is
  no duplicate), now paired with the new vector row 2. Vector row 1 is still in the vector
  index and no chunk row refers to it: \<^verbatim>\<open>insertChunk\<close> neither deletes nor overwrites the
  vector row of the chunk row it replaces.
\<close>

theorem insertChunk_replace_orphans_vector_row:
  "fst (insertChunk 11 chunk_a_again store_a) = Inr 2
   \<and> map (\<lambda>r. (file_path r, row_hash r, vec_rowid r)) (chunks_table store_a)
        = [(''a.txt'', ''h1'', Some 1)]
   \<and> map (\<lambda>r. (file_path r, row_hash r, vec_rowid r)) (chunks_table store_a_twice)
        = [(''a.txt'', ''h1'', Some 2)]
   \<and> vec_chunks store_a_twice = [(1, [1, 0]), (2, [0, 1])]
   \<and> filter (\<lambda>r. vec_rowid r = Some 1) (chunks_table store_a_twice) = []"
  by (simp add: store_a_twice_eq store_a_eq) (simp add: store_defs)


lemma chunks_table_deleteTransaction:
  "chunks_table (deleteTransaction ids d) = chunks_table d"
  unfolding deleteTransaction_def
  by (induction ids arbitrary: d) (auto simp: deleteVec_def)

lemma chunks_table_deleteChunksByFile:
  "chunks_table (deleteChunksByFile fp d) = filter (\<lambda>r. file_path r \<noteq> fp) (chunks_table d)"
  by (simp add: deleteChunksByFile_def delete_chunk_rows_def chunks_table_deleteTransaction)











lemma insertChunk_cases:
  "insertChunk now c d =
     (case embedding c of
        None \<Rightarrow>
          (let r = insert_or_replace_chunk (filePath c) (content c) (hash c) None now d
           in (Inr (fst r), snd r))
      | Some e \<Rightarrow>
          if length e \<noteq> dimension d then (Inl DimensionMismatch, d)
          else
            (let rid = next_rowid (vec_seq d) (map fst (vec_chunks d));
                 r = insert_or_replace_chunk (filePath c) (content c) (hash c) (Some rid) now
                       (d\<lparr>vec_chunks := vec_chunks d @ [(rid, e)], vec_seq := rid\<rparr>)
             in (Inr (fst r), snd r)))"
  by (simp add: insertChunk_def insert_vec_def Let_def next_rowid_def split: option.splits prod.splits)

lemma insertChunk_Inl:
  assumes "insertChunk now c d = (Inl err, d')"
  shows "d' = d \<and> (\<exists>e. embedding c = Some e \<and> length e \<noteq> dimension d)"
  using assms by (auto simp: insertChunk_cases Let_def split: option.splits if_splits)

lemma insertChunk_Inr:
  assumes "insertChunk now c d = (Inr cid, d')"
  shows "dimension d' = dimension d"
    and "(\<forall>e. embedding c = Some e \<longrightarrow> length e = dimension d)"
    and "set (vec_chunks d) \<subseteq> set (vec_chunks d')"
    and "stored c d'"
    and "\<forall>e. embedding c = Some e \<longrightarrow> (\<exists>rid. (rid, e) \<in> set (vec_chunks d'))"
  using assms
  by (auto simp: insertChunk_cases Let_def insert_or_replace_chunk_def stored_def list_ex_iff
           split: option.splits if_splits)

lemma insertChunk_keeps_stored:
  assumes "insertChunk now c' d = (Inr cid, d')" and "stored c d"
    and "\<not> (filePath c' = filePath c \<and> hash c' = hash c)"
  shows "stored c d'"
proof -
  from assms(2) obtain r where r: "r \<in> set (chunks_table d)"
    "file_path r = filePath c" "row_hash r = hash c" "row_content r = content c"
    and v: "(case embedding c of None \<Rightarrow> vec_rowid r = None
             | Some e \<Rightarrow> (case vec_rowid r of None \<Rightarrow> False
                          | Some rid \<Rightarrow> (rid, e) \<in> set (vec_chunks d)))"
    by (auto simp: stored_def list_ex_iff)
  have r': "r \<in> set (chunks_table d')"
    using assms(1,3) r
    by (auto simp: insertChunk_cases Let_def insert_or_replace_chunk_def split: option.splits if_splits)
  have sub: "set (vec_chunks d) \<subseteq> set (vec_chunks d')"
    using insertChunk_Inr(3)[OF assms(1)] .
  have "(case embedding c of None \<Rightarrow> vec_rowid r = None
             | Some e \<Rightarrow> (case vec_rowid r of None \<Rightarrow> False
                          | Some rid \<Rightarrow> (rid, e) \<in> set (vec_chunks d')))"
    using v sub by (auto split: option.splits)
  with r r' show ?thesis by (auto simp: stored_def list_ex_iff)
qed

lemma insertMany_Inl:
  "insertMany clock i cs d = (Inl err, d') \<Longrightarrow>
     \<exists>c \<in> set cs. \<exists>e. embedding c = Some e \<and> length e \<noteq> dimension d"
proof (induction cs arbitrary: d i)
  case Nil
  then show ?case by simp
next
  case (Cons c cs)
  show ?case
  proof (cases "insertChunk (clock i) c d")
    case (Pair out d1)
    show ?thesis
    proof (cases out)
      case (Inl e)
      with Pair insertChunk_Inl[of "clock i" c d e d1] show ?thesis by auto
    next
      case (Inr cid)
      with Pair Cons.prems have "insertMany clock (Suc i) cs d1 = (Inl err, d')" by simp
      from Cons.IH[OF this] insertChunk_Inr(1)[of "clock i" c d cid d1] Pair Inr
      show ?thesis by auto
    qed
  qed
qed

lemma insertMany_keeps:
  "insertMany clock i cs d = (Inr u, d') \<Longrightarrow>
     set (vec_chunks d) \<subseteq> set (vec_chunks d') \<and> dimension d' = dimension d
     \<and> (\<forall>c. stored c d \<and> (\<forall>x \<in> set cs. \<not> (filePath x = filePath c \<and> hash x = hash c))
            \<longrightarrow> stored c d')"
proof (induction cs arbitrary: d i)
  case Nil
  then show ?case by simp
next
  case (Cons c cs)
  obtain out d1 where step: "insertChunk (clock i) c d = (out, d1)"
    by (cases "insertChunk (clock i) c d")
  with Cons.prems obtain cid where out: "out = Inr cid"
    by (cases out) auto
  with step Cons.prems have rest: "insertMany clock (Suc i) cs d1 = (Inr u, d')" by simp
  note ih = Cons.IH[OF rest]
  note s1 = insertChunk_Inr[OF step[unfolded out]]
  have keep: "stored x d1" if "stored x d" "\<not> (filePath c = filePath x \<and> hash c = hash x)" for x
    using insertChunk_keeps_stored[OF step[unfolded out] that] .
  show ?case
    using ih s1(1,3) keep by auto
qed

lemma insertMany_accepts:
  "insertMany clock i cs d = (Inr u, d') \<Longrightarrow>
     \<forall>c \<in> set cs. \<forall>e. embedding c = Some e \<longrightarrow> length e = dimension d
                          \<and> (\<exists>rid. (rid, e) \<in> set (vec_chunks d'))"
proof (induction cs arbitrary: d i)
  case Nil
  then show ?case by simp
next
  case (Cons c cs)
  obtain out d1 where step: "insertChunk (clock i) c d = (out, d1)"
    by (cases "insertChunk (clock i) c d")
  with Cons.prems obtain cid where out: "out = Inr cid"
    by (cases out) auto
  with step Cons.prems have rest: "insertMany clock (Suc i) cs d1 = (Inr u, d')" by simp
  note s1 = insertChunk_Inr[OF step[unfolded out]]
  note k = insertMany_keeps[OF rest]
  from Cons.IH[OF rest] s1 k show ?case by auto blast
qed

lemma insertMany_stores_last:
  "insertMany clock i cs d = (Inr u, d') \<Longrightarrow> cs = pre @ c # post \<Longrightarrow>
   \<forall>x \<in> set post. \<not> (filePath x = filePath c \<and> hash x = hash c) \<Longrightarrow> stored c d'"
proof (induction pre arbitrary: cs d i)
  case Nil
  obtain out d1 where step: "insertChunk (clock i) c d = (out, d1)"
    by (cases "insertChunk (clock i) c d")
  with Nil.prems(1,2) obtain cid where out: "out = Inr cid"
    by (cases out) auto
  with step Nil.prems(1,2) have rest: "insertMany clock (Suc i) post d1 = (Inr u, d')" by simp
  from insertChunk_Inr(4)[OF step[unfolded out]] insertMany_keeps[OF rest] Nil.prems(3)
  show ?case by blast
next
  case (Cons p pre)
  obtain out d1 where step: "insertChunk (clock i) p d = (out, d1)"
    by (cases "insertChunk (clock i) p d")
  with Cons.prems(1,2) obtain cid where out: "out = Inr cid"
    by (cases out) auto
  with step Cons.prems(1,2) have rest: "insertMany clock (Suc i) (pre @ c # post) d1 = (Inr u, d')"
    by simp
  from Cons.IH[OF rest refl Cons.prems(3)] show ?case .
qed

lemma insertMany_key_present:
  assumes "insertMany clock i cs d = (Inr u, d')" and "c \<in> set cs"
  shows "\<exists>r \<in> set (chunks_table d'). file_path r = filePath c \<and> row_hash r = hash c"
proof -
  from assms(2) have "\<exists>x \<in> set cs. filePath x = filePath c \<and> hash x = hash c" by blast
  from split_list_last_prop[OF this] obtain pre x post where
    "cs = pre @ x # post" "filePath x = filePath c \<and> hash x = hash c"
    "\<forall>z \<in> set post. \<not> (filePath z = filePath c \<and> hash z = hash c)" by blast
  then have "stored x d'"
    using insertMany_stores_last[OF assms(1), of pre x post] by simp
  then show ?thesis
    using \<open>filePath x = filePath c \<and> hash x = hash c\<close> by (auto simp: stored_def list_ex_iff)
qed

text \<open>
  C4. \<open>insertChunks\<close> is all or nothing. When it fails, the store is the store before the
  call (and some chunk of the batch carries a vector of the wrong dimension, the failure
  the vector table can raise). When it succeeds, every chunk of the batch has a chunk row
  with its source and fingerprint, every embedding of the batch is in the vector index, and
  every chunk that no later chunk of the batch overwrites (same source and fingerprint) is
  stored with its content and paired with its embedding.
\<close>

theorem insertChunks_atomic:
  "(case insertChunks clock cs d of
      (Inl err, d') \<Rightarrow>
        d' = d \<and> (\<exists>c \<in> set cs. \<exists>e. embedding c = Some e \<and> length e \<noteq> dimension d)
    | (Inr u, d') \<Rightarrow>
        (\<forall>c \<in> set cs.
            (\<exists>r \<in> set (chunks_table d'). file_path r = filePath c \<and> row_hash r = hash c)
          \<and> (\<forall>e. embedding c = Some e \<longrightarrow> (\<exists>rid. (rid, e) \<in> set (vec_chunks d'))))
      \<and> (\<forall>pre c post.
            cs = pre @ c # post
            \<and> (\<forall>x \<in> set post. \<not> (filePath x = filePath c \<and> hash x = hash c))
            \<longrightarrow> stored c d'))"
proof (cases "insertMany clock 0 cs d")
  case (Pair out d1)
  show ?thesis
  proof (cases out)
    case (Inl err)
    with Pair insertMany_Inl[of clock 0 cs d err d1] show ?thesis
      by (simp add: insertChunks_def transaction_def)
  next
    case (Inr u)
    with Pair have run: "insertMany clock 0 cs d = (Inr u, d1)" by simp
    have res: "insertChunks clock cs d = (Inr u, d1)"
      by (simp add: insertChunks_def transaction_def run)
    show ?thesis
      unfolding res
      using insertMany_key_present[OF run] insertMany_accepts[OF run]
        insertMany_stores_last[OF run]
      by simp blast
  qed
qed

theorem insertChunks_atomic_witness:
  "insertChunks (\<lambda>i. 20) [chunk_b, chunk_bad] store_a = (Inl DimensionMismatch, store_a)
   \<and> fst (insertChunks (\<lambda>i. 20) [chunk_b, chunk_a_again] store_a) = Inr ()
   \<and> stored chunk_b (snd (insertChunks (\<lambda>i. 20) [chunk_b, chunk_a_again] store_a))
   \<and> stored chunk_a_again (snd (insertChunks (\<lambda>i. 20) [chunk_b, chunk_a_again] store_a))"
proof -
  have bad: "fst (insertChunks (\<lambda>i. 20) [chunk_b, chunk_bad] store_a) = Inl DimensionMismatch"
    by (simp add: insertChunks_def transaction_def store_a_eq insertChunk_cases
        insert_or_replace_chunk_def next_rowid_def chunk_b_def chunk_bad_def)
  have good: "fst (insertChunks (\<lambda>i. 20) [chunk_b, chunk_a_again] store_a) = Inr ()"
    by (simp add: insertChunks_def transaction_def store_a_eq insertChunk_cases
        insert_or_replace_chunk_def next_rowid_def chunk_b_def chunk_a_again_def)
  have "snd (insertChunks (\<lambda>i. 20) [chunk_b, chunk_bad] store_a) = store_a"
    using insertChunks_atomic[where clock = "\<lambda>i. 20" and cs = "[chunk_b, chunk_bad]" and d = store_a] bad
    by (cases "insertChunks (\<lambda>i. 20) [chunk_b, chunk_bad] store_a") auto
  with bad have 1: "insertChunks (\<lambda>i. 20) [chunk_b, chunk_bad] store_a
      = (Inl DimensionMismatch, store_a)"
    by (metis prod.collapse)
  obtain d2 where res: "insertChunks (\<lambda>i. 20) [chunk_b, chunk_a_again] store_a = (Inr (), d2)"
    using good by (cases "insertChunks (\<lambda>i. 20) [chunk_b, chunk_a_again] store_a") auto
  have all: "\<forall>pre c post. [chunk_b, chunk_a_again] = pre @ c # post
            \<and> (\<forall>x \<in> set post. \<not> (filePath x = filePath c \<and> hash x = hash c))
            \<longrightarrow> stored c d2"
    using insertChunks_atomic[where clock = "\<lambda>i. 20" and cs = "[chunk_b, chunk_a_again]" and d = store_a]
    unfolding res by simp
  have 2: "stored chunk_b d2"
    using all[rule_format, of "[]" chunk_b "[chunk_a_again]"]
    by (simp add: chunk_b_def chunk_a_again_def)
  have 3: "stored chunk_a_again d2"
    using all[rule_format, of "[chunk_b]" chunk_a_again "[]"] by simp
  from 1 good 2 3 show ?thesis by (simp add: res)
qed


section \<open>Vector store: similarity search\<close>










section \<open>Query engine: context text and citations\<close>

lemma contextText_numbered_aux:
  "join [CHR 0x0A, CHR 0x0A]
       (map (\<lambda>(idx, chunk). ''['' @ show_nat (idx + 1) @ ''] '' @ ctx_content chunk)
            (enumerate n cs))
   = numbered (Suc n) (map ctx_content cs)"
proof (induction cs arbitrary: n)
  case Nil
  then show ?case by simp
next
  case (Cons c cs)
  show ?case
  proof (cases cs)
    case Nil
    then show ?thesis by simp
  next
    case (Cons c' cs')
    with Cons.IH[of "Suc n"] show ?thesis by simp
  qed
qed

lemma set_fold_Set_add: "set (fold Set_add xs acc) = set acc \<union> set xs"
  by (induction xs arbitrary: acc) (auto simp: Set_add_def)

lemma distinct_fold_Set_add: "distinct acc \<Longrightarrow> distinct (fold Set_add xs acc)"
  by (induction xs arbitrary: acc) (auto simp: Set_add_def)

lemma first_occurrences_Nil: "first_occurrences [] = []"
  by (simp add: first_occurrences_def)

lemma first_occurrences_snoc:
  "first_occurrences (xs @ [x]) = first_occurrences xs @ (if x \<in> set xs then [] else [x])"
proof -
  let ?P = "\<lambda>i. (xs @ [x]) ! i \<notin> set (take i (xs @ [x]))"
  have a: "filter ?P [0..<length xs] = filter (\<lambda>i. xs ! i \<notin> set (take i xs)) [0..<length xs]"
    by (rule filter_cong) (auto simp: nth_append)
  have b: "map (\<lambda>i. (xs @ [x]) ! i) (filter (\<lambda>i. xs ! i \<notin> set (take i xs)) [0..<length xs])
         = map (\<lambda>i. xs ! i) (filter (\<lambda>i. xs ! i \<notin> set (take i xs)) [0..<length xs])"
    by (rule map_cong) (auto simp: nth_append)
  have c: "[0..<length (xs @ [x])] = [0..<length xs] @ [length xs]"
    by simp
  have "first_occurrences (xs @ [x])
        = map (\<lambda>i. (xs @ [x]) ! i) (filter ?P [0..<length xs])
          @ map (\<lambda>i. (xs @ [x]) ! i) (filter ?P [length xs])"
    unfolding first_occurrences_def c by (simp only: filter_append map_append)
  also have "map (\<lambda>i. (xs @ [x]) ! i) (filter ?P [0..<length xs]) = first_occurrences xs"
    unfolding a b by (simp only: first_occurrences_def)
  also have "map (\<lambda>i. (xs @ [x]) ! i) (filter ?P [length xs]) = (if x \<in> set xs then [] else [x])"
    by simp
  finally show ?thesis .
qed

lemma set_first_occurrences: "set (first_occurrences xs) = set xs"
proof (induction xs rule: rev_induct)
  case Nil
  show ?case by (simp add: first_occurrences_Nil)
next
  case (snoc x xs)
  then show ?case by (auto simp: first_occurrences_snoc)
qed

lemma new_Set_first_occurrences: "new_Set xs = first_occurrences xs"
proof (induction xs rule: rev_induct)
  case Nil
  then show ?case by (simp add: new_Set_def first_occurrences_Nil)
next
  case (snoc x xs)
  then show ?case
    by (simp add: new_Set_def first_occurrences_snoc Set_add_def set_first_occurrences)
qed

lemma distinct_new_Set: "distinct (new_Set xs)"
  by (simp add: new_Set_def distinct_fold_Set_add)

lemma set_new_Set: "set (new_Set xs) = set xs"
  by (simp add: new_Set_def set_fold_Set_add)

text \<open>
  C9. For every list of search results, the context text is the contents in rank order,
  each prefixed with its 1-based rank as \<^verbatim>\<open>[i] \<close> and joined by blank lines, and the
  citation list is exactly the distinct source paths of the results in first-occurrence
  order; whenever \<open>queryRag\<close> returns, its text and citations are these for the chunks it
  returns.
\<close>

theorem queryRag_context_and_citations:
  "contextText chunks = numbered 1 (map ctx_content chunks)
   \<and> new_Set (map ctx_filePath chunks) = first_occurrences (map ctx_filePath chunks)
   \<and> distinct (new_Set (map ctx_filePath chunks))
   \<and> set (new_Set (map ctx_filePath chunks)) = ctx_filePath ` set chunks
   \<and> (case queryRag cfg create toF32 dist openDb question options of
        Inl err \<Rightarrow> True
      | Inr res \<Rightarrow>
          qr_text res = numbered 1 (map ctx_content (qr_context res))
        \<and> qr_citations res = first_occurrences (map ctx_filePath (qr_context res))
        \<and> distinct (qr_citations res)
        \<and> set (qr_citations res) = ctx_filePath ` set (qr_context res))"
proof -
  have ctx: "contextText cs = numbered 1 (map ctx_content cs)" for cs :: "'x ContextChunk list"
    using contextText_numbered_aux[of 0 cs] by (simp add: contextText_def)
  have cit: "new_Set (map ctx_filePath cs) = first_occurrences (map ctx_filePath cs)"
    for cs :: "'x ContextChunk list"
    by (rule new_Set_first_occurrences)
  have q: "(case queryRag cfg create toF32 dist openDb question options of
        Inl err \<Rightarrow> True
      | Inr res \<Rightarrow>
          qr_text res = numbered 1 (map ctx_content (qr_context res))
        \<and> qr_citations res = first_occurrences (map ctx_filePath (qr_context res))
        \<and> distinct (qr_citations res)
        \<and> set (qr_citations res) = ctx_filePath ` set (qr_context res))"
    by (auto simp: queryRag_def Let_def ctx cit[symmetric] distinct_new_Set set_new_Set
             split: sum.splits)
  have d: "distinct (new_Set (map ctx_filePath chunks))"
    by (rule distinct_new_Set)
  have e: "set (new_Set (map ctx_filePath chunks)) = ctx_filePath ` set chunks"
    by (simp add: set_new_Set)
  from ctx[of chunks] cit[of chunks] d e q show ?thesis
    by (intro conjI)
qed

theorem queryRag_context_and_citations_witness:
  "queryRag example_config example_api id sq_dist_opt (\<lambda>p. store_ab) ''abc'' None
   = Inr \<lparr>qr_text = ''[1] world'' @ [CHR 0x0A, CHR 0x0A] @ ''[2] hello'',
           qr_context = [\<lparr>ctx_content = ''world'', ctx_filePath = ''b.txt'', similarity = 0\<rparr>,
                         \<lparr>ctx_content = ''hello'', ctx_filePath = ''a.txt'', similarity = - 12\<rparr>],
           qr_citations = [''b.txt'', ''a.txt'']\<rparr>
   \<and> numbered 1 [''world'', ''hello''] = ''[1] world'' @ [CHR 0x0A, CHR 0x0A] @ ''[2] hello''
   \<and> first_occurrences [''b.txt'', ''a.txt'', ''b.txt''] = [''b.txt'', ''a.txt'']"
proof -
  have emb: "generateEmbedding example_config example_api id ''abc'' None = Inr (Some [3, 3])"
    by (simp add: generateEmbedding_def generateEmbeddings_def getConfig_def example_config_def
        generateEmbeddings_loop.simps BATCH_SIZE_def example_api_def model_or_default_def)
  have srch: "similaritySearch sq_dist_opt (Some [3, 3]) 5 store_ab
      = [\<lparr>ctx_content = ''world'', ctx_filePath = ''b.txt'', similarity = 0\<rparr>,
         \<lparr>ctx_content = ''hello'', ctx_filePath = ''a.txt'', similarity = - 12\<rparr>]"
    by (simp add: similaritySearch_def ranked_rows_def sql_limit_def joined_rows_def store_ab_eq
        sq_dist_opt_def sq_dist_def)
  let ?cs = "[\<lparr>ctx_content = ''world'', ctx_filePath = ''b.txt'', similarity = 0 :: int\<rparr>,
         \<lparr>ctx_content = ''hello'', ctx_filePath = ''a.txt'', similarity = - 12\<rparr>,
         \<lparr>ctx_content = ''again'', ctx_filePath = ''b.txt'', similarity = - 13\<rparr>]"
  note th = queryRag_context_and_citations[of "take 2 ?cs" example_config example_api id sq_dist_opt
      "\<lambda>p. store_ab" "''abc''" None]
  note th3 = queryRag_context_and_citations[of ?cs example_config example_api id sq_dist_opt
      "\<lambda>p. store_ab" "''abc''" None]
  have n: "numbered 1 [''world'', ''hello''] = ''[1] world'' @ [CHR 0x0A, CHR 0x0A] @ ''[2] hello''"
    by (simp add: show_nat.simps)
  have t: "contextText (take 2 ?cs) = ''[1] world'' @ [CHR 0x0A, CHR 0x0A] @ ''[2] hello''"
    using th n by simp
  have f: "first_occurrences [''b.txt'', ''a.txt'', ''b.txt''] = [''b.txt'', ''a.txt'']"
    using th3 by (simp add: new_Set_def Set_add_def)
  have c: "new_Set [''b.txt'', ''a.txt''] = [''b.txt'', ''a.txt'']"
    by (simp add: new_Set_def Set_add_def)
  have "queryRag example_config example_api id sq_dist_opt (\<lambda>p. store_ab) ''abc'' None
   = Inr \<lparr>qr_text = ''[1] world'' @ [CHR 0x0A, CHR 0x0A] @ ''[2] hello'',
           qr_context = [\<lparr>ctx_content = ''world'', ctx_filePath = ''b.txt'', similarity = 0\<rparr>,
                         \<lparr>ctx_content = ''hello'', ctx_filePath = ''a.txt'', similarity = - 12\<rparr>],
           qr_citations = [''b.txt'', ''a.txt'']\<rparr>"
  proof -
    have cfg: "getConfig example_config = Inr example_config" "topK example_config = 5"
      by (simp_all add: getConfig_def example_config_def)
    show ?thesis
      using t by (simp add: queryRag_def cfg emb srch c)
  qed
  with n f show ?thesis by simp
qed


section \<open>Chunker: lengths of chunks, white space\<close>

lemma splitByCharacter_loop_windows:
  assumes "0 < chunkSize - overlap"
  shows "splitByCharacter_loop txt chunkSize overlap start acc =
         Some (acc @ map (\<lambda>s. slice txt s (min (s + chunkSize) (int (length txt))))
                         (window_starts (int (length txt)) (chunkSize - overlap) start))"
  using assms
proof (induction "int (length txt)" "chunkSize - overlap" start arbitrary: acc
       rule: window_starts.induct)
  case (1 start)
  show ?case
  proof (cases "start < int (length txt)")
    case True
    with "1.prems" have c: "start < int (length txt) \<and> 0 < chunkSize - overlap" by simp
    show ?thesis
      apply (subst splitByCharacter_loop.simps)
      apply (subst window_starts.simps)
      using True "1.prems" "1.hyps"[OF c "1.prems"]
      by simp
  next
    case False
    then show ?thesis
      apply (subst splitByCharacter_loop.simps)
      apply (subst window_starts.simps)
      by simp
  qed
qed

lemma window_starts_range:
  "s \<in> set (window_starts len stride start) \<Longrightarrow> start \<le> s \<and> s < len"
proof (induction len stride start rule: window_starts.induct)
  case (1 len stride start)
  show ?case
  proof (cases "start < len \<and> 0 < stride")
    case True
    with "1.prems" have "s = start \<or> s \<in> set (window_starts len stride (start + stride))"
      by (subst (asm) window_starts.simps) auto
    with True "1.IH"[OF True] show ?thesis by auto
  next
    case False
    with "1.prems" show ?thesis by (subst (asm) window_starts.simps) simp
  qed
qed

lemma slice_window:
  assumes "0 \<le> s" "s < int (length txt)" "0 \<le> chunkSize"
  shows "slice txt s (min (s + chunkSize) (int (length txt))) = window txt chunkSize s"
proof -
  have "take (nat (min (s + chunkSize) (int (length txt)) - s)) (drop (nat s) txt)
        = take (nat chunkSize) (drop (nat s) txt)"
    using assms by (cases "s + chunkSize \<le> int (length txt)") (auto simp: min_def)
  then show ?thesis
    using assms by (simp add: slice_def window_def Let_def min_def)
qed

lemma length_window:
  assumes "0 \<le> s" "s < int (length txt)" "0 \<le> chunkSize"
  shows "int (length (window txt chunkSize s)) = min chunkSize (int (length txt) - s)"
  using assms by (auto simp: window_def min_def)

lemma splitByCharacter_windows:
  assumes "0 \<le> overlap" "overlap < chunkSize"
  shows "splitByCharacter txt chunkSize overlap =
         Some (map (window txt chunkSize)
                   (window_starts (int (length txt)) (chunkSize - overlap) 0))"
proof -
  have "map (\<lambda>s. slice txt s (min (s + chunkSize) (int (length txt))))
            (window_starts (int (length txt)) (chunkSize - overlap) 0)
        = map (window txt chunkSize) (window_starts (int (length txt)) (chunkSize - overlap) 0)"
    by (rule map_cong[OF refl], rule slice_window)
       (use assms window_starts_range in \<open>force+\<close>)
  then show ?thesis
    using assms splitByCharacter_loop_windows[of chunkSize overlap "txt" 0 "[]"]
    by (simp add: splitByCharacter_def)
qed

lemma splitByCharacter_pieces:
  assumes "0 \<le> overlap" "overlap < chunkSize"
    and "splitByCharacter txt chunkSize overlap = Some parts" and "p \<in> set parts"
  shows "p \<noteq> [] \<and> int (length p) \<le> chunkSize \<and> set p \<subseteq> set txt"
proof -
  from assms(3) splitByCharacter_windows[OF assms(1,2), of "txt"]
  have "parts = map (window txt chunkSize) (window_starts (int (length txt)) (chunkSize - overlap) 0)"
    by simp
  with assms(4) obtain s where s: "s \<in> set (window_starts (int (length txt)) (chunkSize - overlap) 0)"
    and p: "p = window txt chunkSize s" by auto
  from window_starts_range[OF s] have r: "0 \<le> s" "s < int (length txt)" by simp_all
  from length_window[OF r, of chunkSize] assms(1,2) have "int (length p) = min chunkSize (int (length txt) - s)"
    by (simp add: p)
  with r assms(1,2) have "0 < int (length p)" "int (length p) \<le> chunkSize" by (simp_all add: min_def)
  moreover have "set p \<subseteq> set txt"
    unfolding p window_def by (meson in_set_dropD in_set_takeD subsetI)
  ultimately show ?thesis by auto
qed


lemma length_trim_le: "length (trim s) \<le> length s"
proof -
  have "length (dropWhile is_space (rev (dropWhile is_space s))) \<le> length (rev (dropWhile is_space s))"
    by (rule length_dropWhile_le)
  also have "\<dots> \<le> length s" by (simp add: length_dropWhile_le)
  finally show ?thesis by (simp add: trim_def)
qed

lemma slice_from_neg:
  assumes "0 < ov"
  shows "slice_from s (- ov) = drop (length s - nat ov) s"
proof -
  have "nat (max (int (length s) - ov) 0) = length s - nat ov"
    using assms by (auto simp: max_def)
  then show ?thesis
    using assms by (simp add: slice_from_def slice_def Let_def)
qed

lemma length_slice_from_neg:
  assumes "0 < ov"
  shows "int (length (slice_from s (- ov))) \<le> ov"
  using assms by (simp add: slice_from_neg)

lemma push_current_within:
  assumes "within b (chunks, cur)"
  shows "\<forall>c \<in> set (push_current chunks cur). int (length c) \<le> b"
proof -
  have "int (length (trim cur)) \<le> b"
    using assms length_trim_le[of cur] by (simp add: within_def)
  with assms show ?thesis by (auto simp: push_current_def within_def)
qed

lemma chunk_sentence_within:
  assumes ov: "0 \<le> overlap" "overlap < chunkSize"
    and inv: "within (chunkSize + overlap + 1) st"
  shows "\<exists>st'. chunk_sentence chunkSize overlap sentence st = Some st'
               \<and> within (chunkSize + overlap + 1) st'"
proof -
  obtain chunks cur where st: "st = (chunks, cur)" by (cases st)
  note pushed = push_current_within[OF inv[unfolded st]]
  show ?thesis
  proof (cases "int (length sentence) > chunkSize")
    case True
    from splitByCharacter_windows[OF ov, of sentence] obtain parts
      where parts: "splitByCharacter sentence chunkSize overlap = Some parts" by blast
    have "\<forall>p \<in> set parts. int (length p) \<le> chunkSize + overlap + 1"
      using splitByCharacter_pieces[OF ov parts] ov by fastforce
    with pushed True parts ov show ?thesis
      by (auto simp: chunk_sentence_def st within_def)
  next
    case short: False
    show ?thesis
    proof (cases "int (length cur) + int (length sentence) > chunkSize")
      case True
      have "int (length (slice_from (last (push_current chunks cur)) (- overlap) @ '' '' @ sentence))
              \<le> chunkSize + overlap + 1" if "0 < overlap"
        using length_slice_from_neg[OF that, of "last (push_current chunks cur)"] short by simp
      with pushed True short ov show ?thesis
        by (auto simp: chunk_sentence_def st within_def Let_def)
    next
      case False
      with short inv ov show ?thesis
        by (auto simp: chunk_sentence_def st within_def)
    qed
  qed
qed

lemma chunk_sentences_within:
  assumes ov: "0 \<le> overlap" "overlap < chunkSize"
  shows "within (chunkSize + overlap + 1) st \<Longrightarrow>
         \<exists>st'. chunk_sentences chunkSize overlap sentences st = Some st'
               \<and> within (chunkSize + overlap + 1) st'"
proof (induction sentences arbitrary: st)
  case Nil
  then show ?case by simp
next
  case (Cons s ss)
  from chunk_sentence_within[OF ov Cons.prems, of s] obtain st1 where
    st1: "chunk_sentence chunkSize overlap s st = Some st1" "within (chunkSize + overlap + 1) st1"
    by blast
  from Cons.IH[OF st1(2)] st1(1) show ?case by simp
qed

lemma chunkText_within:
  assumes ov: "0 \<le> overlap" "overlap < chunkSize"
  shows "\<exists>chunks. chunkText txt chunkSize overlap = Some chunks
           \<and> (\<forall>c \<in> set chunks. c \<noteq> [] \<and> int (length c) \<le> chunkSize + overlap + 1)"
proof -
  have "within (chunkSize + overlap + 1) ([], [])"
    using ov by (simp add: within_def)
  from chunk_sentences_within[OF ov this, of "split_sentences (normalize_newlines txt)"]
  obtain chunks cur where
    run: "chunk_sentences chunkSize overlap (split_sentences (normalize_newlines txt)) ([], [])
            = Some (chunks, cur)"
    and inv: "within (chunkSize + overlap + 1) (chunks, cur)"
    by auto
  have "int (length (trim cur)) \<le> chunkSize + overlap + 1"
    using inv length_trim_le[of cur] by (simp add: within_def)
  with inv run show ?thesis
    by (auto simp: chunkText_def within_def)
qed




lemma c3_cex: "chunkText ''ab. cd.'' 6 0 = Some [''ab. cd.'']"
  by code_simp

lemma c3_cex2: "splitByCharacter ''abcdefg'' 4 3 = Some [''abcd'', ''bcde'', ''cdef'', ''defg'', ''efg'', ''fg'', ''g'']"
  by code_simp

lemma c3_cex3: "split_sentences (normalize_newlines ''ab. cd.'') = [''ab.'', ''cd.'']"
  by code_simp





lemma is_space_not_sentence_end: "is_space c \<Longrightarrow> \<not> sentence_end c"
  by (auto simp: is_space_def sentence_end_def)

lemma split_from_spaces:
  "\<forall>c \<in> set cs. is_space c \<Longrightarrow> split_from False piece cs = [piece @ cs]"
  by (induction cs arbitrary: piece) (simp_all add: is_space_not_sentence_end)

lemma replace_crlf_spaces:
  "\<forall>c \<in> set cs. is_space c \<Longrightarrow> \<forall>c \<in> set (replace_crlf cs). is_space c"
  by (induction cs rule: replace_crlf.induct) (auto simp: is_space_def)

lemma normalize_newlines_spaces:
  assumes "\<forall>c \<in> set cs. is_space c"
  shows "\<forall>c \<in> set (normalize_newlines cs). is_space c"
  using replace_crlf_spaces[OF assms]
  by (auto simp: normalize_newlines_def replace_cr_def is_space_def)

lemma length_replace_crlf: "length (replace_crlf cs) \<le> length cs"
  by (induction cs rule: replace_crlf.induct) auto

lemma length_normalize_newlines: "length (normalize_newlines cs) \<le> length cs"
  using length_replace_crlf[of cs] by (simp add: normalize_newlines_def replace_cr_def)

lemma trim_spaces:
  assumes "\<forall>c \<in> set s. is_space c"
  shows "trim s = []"
  using assms by (auto simp: trim_def dest: set_dropWhileD)

text \<open>
  C10, amended. For a text of white space only: when the text (after the normalisation of
  line ends) has at most \<open>chunkSize\<close> characters, \<open>chunkText\<close> returns the empty
  sequence; when it is longer and \<open>0 \<le> overlap < chunkSize\<close>, \<open>chunkText\<close> returns the
  pieces of \<open>splitByCharacter\<close>, a non-empty sequence of non-empty chunks of white space.
  In the first case the pipeline skips the file: nothing is embedded and the store is left
  as it is.
\<close>

theorem chunkText_whitespace:
  assumes ws: "\<forall>c \<in> set txt. is_space c"
  shows "(int (length (normalize_newlines txt)) \<le> chunkSize \<longrightarrow>
            chunkText txt chunkSize overlap = Some [])
       \<and> (int (length txt) \<le> chunkSize \<longrightarrow> chunkText txt chunkSize overlap = Some [])
       \<and> (0 \<le> overlap \<and> overlap < chunkSize
            \<and> chunkSize < int (length (normalize_newlines txt)) \<longrightarrow>
            chunkText txt chunkSize overlap
              = splitByCharacter (normalize_newlines txt) chunkSize overlap
            \<and> (\<exists>parts. chunkText txt chunkSize overlap = Some parts \<and> parts \<noteq> []
                  \<and> (\<forall>p \<in> set parts. p \<noteq> [] \<and> (\<forall>c \<in> set p. is_space c))))
       \<and> (readFileSync w path = Inr txt
            \<and> int (length (normalize_newlines txt)) \<le> config_chunkSize cfg \<longrightarrow>
            index_file w cfg path relativePath d = Some (Inr None, d))"
proof -
  let ?t = "normalize_newlines txt"
  have wt: "\<forall>c \<in> set ?t. is_space c"
    by (rule normalize_newlines_spaces[OF ws])
  have sents: "split_sentences ?t = [?t]"
    using split_from_spaces[OF wt, of "[]"] by (simp add: split_sentences_def)
  have small: "chunkText txt chunkSize overlap = Some []"
    if "int (length ?t) \<le> chunkSize"
    using that trim_spaces[OF wt]
    by (simp add: chunkText_def sents chunk_sentence_def)
  have small': "int (length txt) \<le> chunkSize \<longrightarrow> chunkText txt chunkSize overlap = Some []"
    using small length_normalize_newlines[of "txt"] by auto
  have big: "chunkText txt chunkSize overlap = splitByCharacter ?t chunkSize overlap
            \<and> (\<exists>parts. chunkText txt chunkSize overlap = Some parts \<and> parts \<noteq> []
                  \<and> (\<forall>p \<in> set parts. p \<noteq> [] \<and> (\<forall>c \<in> set p. is_space c)))"
    if ov: "0 \<le> overlap" "overlap < chunkSize" and long: "chunkSize < int (length ?t)"
  proof -
    from splitByCharacter_windows[OF ov, of ?t] obtain parts
      where parts: "splitByCharacter ?t chunkSize overlap = Some parts"
        and w: "parts = map (window ?t chunkSize)
                  (window_starts (int (length ?t)) (chunkSize - overlap) 0)" by blast
    have pieces: "\<forall>p \<in> set parts. p \<noteq> [] \<and> (\<forall>c \<in> set p. is_space c)"
      using splitByCharacter_pieces[OF ov parts] wt by blast
    then have keep: "filter (\<lambda>chunk. chunk \<noteq> []) parts = parts"
      by (simp add: filter_id_conv)
    have net: "?t \<noteq> []"
    proof
      assume "?t = []"
      with long ov show False by simp
    qed
    have "window_starts (int (length ?t)) (chunkSize - overlap) 0 \<noteq> []"
      using ov net by (subst window_starts.simps) simp
    with w have ne: "parts \<noteq> []" by simp
    have "chunkText txt chunkSize overlap = Some parts"
      using long net by (simp add: chunkText_def sents chunk_sentence_def parts push_current_def
          trim_def keep)
    with parts pieces ne show ?thesis by simp
  qed
  have skip: "index_file w cfg path relativePath d = Some (Inr None, d)"
    if "readFileSync w path = Inr txt" "int (length ?t) \<le> config_chunkSize cfg"
    using that trim_spaces[OF wt]
    by (simp add: index_file_def chunkText_def sents chunk_sentence_def)
  from small small' big skip show ?thesis by blast
qed

theorem chunkText_whitespace_witness:
  "chunkText [CHR 0x20, CHR 0x0D, CHR 0x0A, CHR 0x09] 3 1 = Some []
   \<and> chunkText ''    '' 2 1 = splitByCharacter ''    '' 2 1
   \<and> splitByCharacter ''    '' 2 1 = Some [''  '', ''  '', ''  '', '' '']"
proof -
  have ws1: "\<forall>c \<in> set [CHR 0x20, CHR 0x0D, CHR 0x0A, CHR 0x09]. is_space c"
    by (simp add: is_space_def)
  have len1: "int (length (normalize_newlines [CHR 0x20, CHR 0x0D, CHR 0x0A, CHR 0x09])) \<le> 3"
    by (simp add: normalize_newlines_def replace_cr_def)
  note th1 = chunkText_whitespace[OF ws1, of 3 1, THEN conjunct1]
  from mp[OF th1 len1]
  have small: "chunkText [CHR 0x20, CHR 0x0D, CHR 0x0A, CHR 0x09] 3 1 = Some []" .
  have ws2: "\<forall>c \<in> set ''    ''. is_space c"
    by (simp add: is_space_def)
  have len2: "(0::int) \<le> 1 \<and> (1::int) < 2 \<and> 2 < int (length (normalize_newlines ''    ''))"
    by (simp add: normalize_newlines_def replace_cr_def)
  note th2 = chunkText_whitespace[OF ws2, of 2 1, THEN conjunct2, THEN conjunct2, THEN conjunct1]
  from mp[OF th2 len2]
  have "chunkText ''    '' 2 1 = splitByCharacter (normalize_newlines ''    '') 2 1"
    by (rule conjunct1)
  moreover have "normalize_newlines ''    '' = ''    ''"
    by (simp add: normalize_newlines_def replace_cr_def)
  ultimately have big: "chunkText ''    '' 2 1 = splitByCharacter ''    '' 2 1"
    by simp
  have "splitByCharacter ''    '' 2 1 = Some [''  '', ''  '', ''  '', '' '']"
    by code_simp
  with small big show ?thesis by (intro conjI)
qed

text \<open>
  C10 as stated fails: three spaces with \<open>chunkSize = 2\<close>, \<open>overlap = 0\<close> give two chunks
  of white space.
\<close>

theorem chunkText_whitespace_counterexample:
  "list_all is_space ''   '' \<and> chunkText ''   '' 2 0 = Some [''  '', '' '']"
  by code_simp


section \<open>Chunker: overlap of adjacent chunks\<close>

lemma push_current_untag:
  "map snd (push_current_tagged chunks cur) = push_current (map snd chunks) cur"
  by (simp add: push_current_tagged_def push_current_def)

lemma chunk_sentence_untag:
  "map_option untag (chunk_sentence_tagged chunkSize ov sentence st)
     = chunk_sentence chunkSize ov sentence (untag st)"
proof -
  obtain chunks cur where st: "st = (chunks, cur)" by (cases st)
  have l: "length (push_current_tagged chunks cur) = length (push_current (map snd chunks) cur)"
    using push_current_untag[of chunks cur] by (metis length_map)
  have lst: "snd (last (push_current_tagged chunks cur)) = last (push_current (map snd chunks) cur)"
    if "push_current_tagged chunks cur \<noteq> []"
    using that push_current_untag[of chunks cur] by (metis last_map)
  show ?thesis
    using l lst
    by (auto simp: chunk_sentence_tagged_def chunk_sentence_def st untag_def Let_def
        push_current_untag comp_def split: option.splits)
qed

lemma chunk_sentences_untag:
  "map_option untag (chunk_sentences_tagged chunkSize ov sentences st)
     = chunk_sentences chunkSize ov sentences (untag st)"
proof (induction sentences arbitrary: st)
  case Nil
  then show ?case by simp
next
  case (Cons s ss)
  show ?case
  proof (cases "chunk_sentence_tagged chunkSize ov s st")
    case None
    with chunk_sentence_untag[of chunkSize ov s st] show ?thesis by simp
  next
    case (Some st1)
    with chunk_sentence_untag[of chunkSize ov s st]
    have "chunk_sentence chunkSize ov s (untag st) = Some (untag st1)" by simp
    with Some Cons.IH[of st1] show ?thesis by simp
  qed
qed

lemma chunkText_untag:
  "map_option (map snd) (chunkText_tagged txt chunkSize ov) = chunkText txt chunkSize ov"
proof -
  let ?ss = "split_sentences (normalize_newlines txt)"
  have u: "untag ([], []) = ([], [])" by (simp add: untag_def)
  show ?thesis
  proof (cases "chunk_sentences_tagged chunkSize ov ?ss ([], [])")
    case None
    with chunk_sentences_untag[of chunkSize ov ?ss "([], [])"] show ?thesis
      by (simp add: chunkText_tagged_def chunkText_def u)
  next
    case (Some st)
    obtain chunks cur where st: "st = (chunks, cur)" by (cases st)
    from Some chunk_sentences_untag[of chunkSize ov ?ss "([], [])"]
    have "chunk_sentences chunkSize ov ?ss ([], []) = Some (map snd chunks, cur)"
      by (simp add: u st untag_def)
    with Some st show ?thesis
      by (simp add: chunkText_tagged_def chunkText_def filter_map comp_def)
  qed
qed


lemma last_dropWhile:
  assumes "u \<noteq> []" "\<not> P (last u)"
  shows "dropWhile P u \<noteq> [] \<and> last (dropWhile P u) = last u"
  using assms by (induction u) (auto split: if_splits)

lemma trim_keeps_prefix:
  assumes "u \<noteq> []" "\<not> is_space (last u)"
  shows "\<exists>v. trim (u @ w) = dropWhile is_space u @ v"
proof -
  let ?u' = "dropWhile is_space u"
  from last_dropWhile[of u is_space] assms have u': "?u' \<noteq> []" "\<not> is_space (last ?u')" by simp_all
  have "last u \<in> set u" using assms(1) by simp
  with assms(2) have front: "dropWhile is_space (u @ w) = ?u' @ w"
    by (simp add: dropWhile_append1)
  have hd: "\<not> is_space (hd (rev ?u'))" using u' by (simp add: hd_rev)
  have keep: "dropWhile is_space (rev ?u') = rev ?u'"
    using u'(1) hd by (cases "rev ?u'") auto
  have "\<exists>z. dropWhile is_space (rev w @ rev ?u') = z @ rev ?u'"
    by (cases "\<forall>x \<in> set (rev w). is_space x") (auto simp: dropWhile_append keep)
  then obtain z where "dropWhile is_space (rev (?u' @ w)) = z @ rev ?u'" by auto
  then have "trim (u @ w) = ?u' @ rev z"
    by (simp add: trim_def front)
  then show ?thesis by blast
qed

lemma trim_end: "trim s = [] \<or> \<not> is_space (last (trim s))"
proof (cases "trim s = []")
  case False
  then have ne: "dropWhile is_space (rev (dropWhile is_space s)) \<noteq> []"
    by (simp add: trim_def)
  from hd_dropWhile[OF ne] show ?thesis
    by (simp add: trim_def last_rev)
qed simp

lemma slice_from_tail:
  assumes "0 < ov" "a \<noteq> []"
  shows "slice_from a (- ov) \<noteq> [] \<and> last (slice_from a (- ov)) = last a"
proof -
  have h: "length a - nat ov < length a" using assms by (cases a) auto
  then have "drop (length a - nat ov) a \<noteq> []" by simp
  moreover have "last (drop (length a - nat ov) a) = last a" using h by (rule last_drop)
  ultimately show ?thesis
    by (simp only: slice_from_neg[OF assms(1)]) simp
qed

lemma slice_from_Nil: "0 < ov \<Longrightarrow> slice_from [] (- ov) = []"
  by (simp add: slice_from_neg)

lemma carried_trim:
  assumes ov: "0 < ov" and a: "a = [] \<or> \<not> is_space (last a)"
    and cur: "cur = slice_from a (- ov) @ CHR '' '' # rest"
  shows "overlaps ov a (trim cur) \<and> (trim cur = [] \<longrightarrow> a = [])"
proof (cases "a = []")
  case True
  then show ?thesis by (simp add: overlaps_def slice_from_Nil[OF ov])
next
  case False
  with a have nsp: "\<not> is_space (last a)" by simp
  from slice_from_tail[OF ov False] nsp
  have u: "slice_from a (- ov) \<noteq> []" "\<not> is_space (last (slice_from a (- ov)))" by simp_all
  from trim_keeps_prefix[OF u, of "CHR '' '' # rest"] obtain v
    where v: "trim cur = dropWhile is_space (slice_from a (- ov)) @ v" by (auto simp: cur)
  from last_dropWhile[of "slice_from a (- ov)" is_space] u
  have "dropWhile is_space (slice_from a (- ov)) \<noteq> []" by simp
  with v False show ?thesis by (simp add: overlaps_def)
qed

lemma tagged_inv_push:
  assumes ov: "0 < ov" and inv: "tagged_inv ov (chunks, cur)"
  shows "tagged_inv ov (chunks @ [(Accumulated, trim cur)],
                        slice_from (trim cur) (- ov) @ CHR '' '' # rest)"
proof -
  from inv have s: "successively (carried ov) chunks"
    and b: "\<forall>c \<in> set chunks. fst c = CharacterSplit \<longrightarrow> snd c \<noteq> []"
    and c: "\<forall>c \<in> set chunks. fst c = Accumulated \<longrightarrow> snd c = [] \<or> \<not> is_space (last (snd c))"
    and d: "chunks \<noteq> [] \<and> fst (last chunks) = Accumulated \<longrightarrow>
            (\<exists>r. cur = slice_from (snd (last chunks)) (- ov) @ CHR '' '' # r)"
    by (simp_all add: tagged_inv_def)
  have link: "carried ov (last chunks) (Accumulated, trim cur)" if ne: "chunks \<noteq> []"
  proof (cases "fst (last chunks) = Accumulated")
    case True
    with d ne obtain r where r: "cur = slice_from (snd (last chunks)) (- ov) @ CHR '' '' # r"
      by blast
    from c True ne have "snd (last chunks) = [] \<or> \<not> is_space (last (snd (last chunks)))"
      by simp
    from carried_trim[OF ov this r] show ?thesis by (simp add: carried_def)
  next
    case False
    then show ?thesis by (simp add: carried_def)
  qed
  have s': "successively (carried ov) (chunks @ [(Accumulated, trim cur)])"
    using s link by (auto simp: successively_append_iff)
  show ?thesis
    using s' b c trim_end[of cur] by (auto simp: tagged_inv_def)
qed

lemma tagged_inv_push_only:
  assumes ov: "0 < ov" and inv: "tagged_inv ov (chunks, cur)"
  shows "successively (carried ov) (chunks @ [(Accumulated, trim cur)])
       \<and> (\<forall>c \<in> set (chunks @ [(Accumulated, trim cur)]). fst c = CharacterSplit \<longrightarrow> snd c \<noteq> [])
       \<and> (\<forall>c \<in> set (chunks @ [(Accumulated, trim cur)]).
             fst c = Accumulated \<longrightarrow> snd c = [] \<or> \<not> is_space (last (snd c)))"
  using tagged_inv_push[OF ov inv, of "[]"] by (simp add: tagged_inv_def)

lemma successively_append_split:
  assumes "successively (carried ov) xs" "\<forall>p \<in> set ps. fst p = CharacterSplit"
  shows "successively (carried ov) (xs @ ps)"
proof -
  have "successively (carried ov) ps"
    using assms(2) by (induction ps) (auto simp: successively_Cons carried_def)
  moreover have "carried ov (last xs) (hd ps)" if "ps \<noteq> []"
    using assms(2) that by (cases ps) (auto simp: carried_def)
  ultimately show ?thesis
    using assms(1) by (auto simp: successively_append_iff)
qed

lemma window_starts_nonempty: "0 < len \<Longrightarrow> 0 < stride \<Longrightarrow> window_starts len stride 0 \<noteq> []"
  by (subst window_starts.simps) simp

lemma chunk_sentence_tagged_inv:
  assumes ov: "0 < ov" "ov < chunkSize" and inv: "tagged_inv ov st"
    and step: "chunk_sentence_tagged chunkSize ov sentence st = Some st'"
  shows "tagged_inv ov st'"
proof -
  obtain chunks cur where st: "st = (chunks, cur)" by (cases st)
  note inv' = inv[unfolded st]
  have ov0: "0 \<le> ov" using ov by simp
  show ?thesis
  proof (cases "int (length sentence) > chunkSize")
    case True
    from splitByCharacter_windows[OF ov0 ov(2), of sentence] obtain parts
      where parts: "splitByCharacter sentence chunkSize ov = Some parts"
        and w: "parts = map (window sentence chunkSize)
                  (window_starts (int (length sentence)) (chunkSize - ov) 0)" by blast
    have "0 < int (length sentence)" "0 < chunkSize - ov" using True ov by linarith+
    from window_starts_nonempty[OF this] w have pne: "parts \<noteq> []" by simp
    have pieces: "\<forall>p \<in> set parts. p \<noteq> []"
      using splitByCharacter_pieces[OF ov0 ov(2) parts] by blast
    let ?pushed = "push_current_tagged chunks cur"
    have pushed: "successively (carried ov) ?pushed
       \<and> (\<forall>c \<in> set ?pushed. fst c = CharacterSplit \<longrightarrow> snd c \<noteq> [])
       \<and> (\<forall>c \<in> set ?pushed. fst c = Accumulated \<longrightarrow> snd c = [] \<or> \<not> is_space (last (snd c)))"
      using tagged_inv_push_only[OF ov(1) inv'] inv'
      by (auto simp: push_current_tagged_def tagged_inv_def)
    have st': "st' = (?pushed @ map (Pair CharacterSplit) parts, [])"
      using step True parts by (simp add: chunk_sentence_tagged_def st)
    have s: "successively (carried ov) (?pushed @ map (Pair CharacterSplit) parts)"
      by (rule successively_append_split) (use pushed in auto)
    have l: "fst (last (?pushed @ map (Pair CharacterSplit) parts)) = CharacterSplit"
      using pne by (simp add: last_map)
    show ?thesis
      unfolding st' tagged_inv_def using s pushed pieces l pne by auto
  next
    case short: False
    show ?thesis
    proof (cases "int (length cur) + int (length sentence) > chunkSize")
      case True
      with short have cne: "cur \<noteq> []" by auto
      then have pushed: "push_current_tagged chunks cur = chunks @ [(Accumulated, trim cur)]"
        by (simp add: push_current_tagged_def)
      have st': "st' = (chunks @ [(Accumulated, trim cur)],
                        slice_from (trim cur) (- ov) @ CHR '' '' # sentence)"
        using step True short ov by (simp add: chunk_sentence_tagged_def st pushed Let_def)
      show ?thesis
        unfolding st' by (rule tagged_inv_push[OF ov(1) inv'])
    next
      case False
      with short step have st': "st' = (chunks, cur @ (if cur \<noteq> [] then '' '' else []) @ sentence)"
        by (simp add: chunk_sentence_tagged_def st)
      show ?thesis
        unfolding st' using inv' by (auto simp: tagged_inv_def)
    qed
  qed
qed

lemma chunk_sentences_tagged_inv:
  assumes ov: "0 < ov" "ov < chunkSize"
  shows "tagged_inv ov st \<Longrightarrow> chunk_sentences_tagged chunkSize ov sentences st = Some st' \<Longrightarrow>
         tagged_inv ov st'"
proof (induction sentences arbitrary: st)
  case Nil
  then show ?case by simp
next
  case (Cons s ss)
  from Cons.prems(2) obtain st1 where
    st1: "chunk_sentence_tagged chunkSize ov s st = Some st1"
    and rest: "chunk_sentences_tagged chunkSize ov ss st1 = Some st'"
    by (auto split: option.splits)
  from chunk_sentence_tagged_inv[OF ov Cons.prems(1) st1] have "tagged_inv ov st1" .
  from Cons.IH[OF this rest] show ?case .
qed

lemma successively_filter_kept_head:
  assumes "successively (carried ov) (x # xs)" "snd x \<noteq> []"
    and "\<forall>c \<in> set xs. fst c = CharacterSplit \<longrightarrow> snd c \<noteq> []"
  shows "successively (carried ov) (x # filter (\<lambda>c. length (snd c) > 0) xs)"
  using assms
proof (induction xs arbitrary: x)
  case Nil
  then show ?case by simp
next
  case (Cons y ys)
  from Cons.prems(1) have xy: "carried ov x y" and tl: "successively (carried ov) (y # ys)"
    by simp_all
  show ?case
  proof (cases "snd y = []")
    case False
    from Cons.IH[OF tl False] Cons.prems(3) xy False show ?thesis by simp
  next
    case True
    with Cons.prems(3) have yacc: "fst y = Accumulated" by (cases "fst y") auto
    have xsplit: "fst x = CharacterSplit"
    proof (rule ccontr)
      assume "fst x \<noteq> CharacterSplit"
      then have "fst x = Accumulated" by (cases "fst x") auto
      with xy yacc True have "snd x = []" by (simp add: carried_def)
      with Cons.prems(2) show False by simp
    qed
    have "successively (carried ov) (x # ys)"
      using tl xsplit by (cases ys) (auto simp: carried_def)
    from Cons.IH[OF this Cons.prems(2)] Cons.prems(3) True show ?thesis by simp
  qed
qed

lemma successively_filter_kept:
  assumes "successively (carried ov) xs"
    and "\<forall>c \<in> set xs. fst c = CharacterSplit \<longrightarrow> snd c \<noteq> []"
  shows "successively (carried ov) (filter (\<lambda>c. length (snd c) > 0) xs)"
  using assms
proof (induction xs)
  case Nil
  then show ?case by simp
next
  case (Cons x xs)
  from Cons.prems(1) have tl: "successively (carried ov) xs"
    by (cases xs) simp_all
  show ?case
  proof (cases "snd x = []")
    case True
    with Cons.IH[OF tl] Cons.prems(2) show ?thesis by simp
  next
    case False
    from successively_filter_kept_head[OF Cons.prems(1) False] Cons.prems(2) False
    show ?thesis by simp
  qed
qed

lemma successively_nth:
  "successively P xs \<Longrightarrow> Suc i < length xs \<Longrightarrow> P (xs ! i) (xs ! Suc i)"
proof (induction xs arbitrary: i)
  case Nil
  then show ?case by simp
next
  case (Cons x xs)
  then show ?case by (cases xs; cases i) auto
qed

text \<open>
  C6, amended. For \<open>0 < overlap < chunkSize\<close> and every two adjacent chunks that both come
  from the accumulation of sentences, the last \<open>overlap\<close> characters of the first chunk
  (the whole chunk when it is shorter), with their leading white space removed, are a
  prefix of the second chunk.
\<close>

theorem chunkText_overlap_prefix:
  assumes ov: "0 < overlap" "overlap < chunkSize"
  shows "\<exists>tagged. chunkText_tagged txt chunkSize overlap = Some tagged
           \<and> chunkText txt chunkSize overlap = Some (map snd tagged)
           \<and> (\<forall>i. Suc i < length tagged \<and> fst (tagged ! i) = Accumulated
                    \<and> fst (tagged ! Suc i) = Accumulated \<longrightarrow>
                  prefix (dropWhile is_space (slice_from (snd (tagged ! i)) (- overlap)))
                         (snd (tagged ! Suc i)))"
proof -
  let ?ss = "split_sentences (normalize_newlines txt)"
  have ov0: "0 \<le> overlap" using ov by simp
  from chunkText_within[OF ov0 ov(2), of "txt"] obtain chunks
    where plain: "chunkText txt chunkSize overlap = Some chunks" by blast
  with chunkText_untag[of "txt" chunkSize overlap] obtain tagged
    where tagged: "chunkText_tagged txt chunkSize overlap = Some tagged"
      and erase: "chunks = map snd tagged" by auto
  from tagged obtain tchunks cur where
    run: "chunk_sentences_tagged chunkSize overlap ?ss ([], []) = Some (tchunks, cur)"
    and res: "tagged = filter (\<lambda>chunk. length (snd chunk) > 0)
                  (if trim cur \<noteq> [] then tchunks @ [(Accumulated, trim cur)] else tchunks)"
    by (auto simp: chunkText_tagged_def split: option.splits)
  have "tagged_inv overlap ([], [])" by (simp add: tagged_inv_def)
  from chunk_sentences_tagged_inv[OF ov this run] have inv: "tagged_inv overlap (tchunks, cur)" .
  let ?all = "if trim cur \<noteq> [] then tchunks @ [(Accumulated, trim cur)] else tchunks"
  have "successively (carried overlap) ?all
        \<and> (\<forall>c \<in> set ?all. fst c = CharacterSplit \<longrightarrow> snd c \<noteq> [])"
    using tagged_inv_push_only[OF ov(1) inv] inv by (auto simp: tagged_inv_def)
  then have "successively (carried overlap) tagged"
    unfolding res by (intro successively_filter_kept) simp_all
  then have "\<forall>i. Suc i < length tagged \<and> fst (tagged ! i) = Accumulated
                    \<and> fst (tagged ! Suc i) = Accumulated \<longrightarrow>
                  prefix (dropWhile is_space (slice_from (snd (tagged ! i)) (- overlap)))
                         (snd (tagged ! Suc i))"
    using successively_nth[of "carried overlap" tagged]
    by (auto simp: carried_def overlaps_def)
  with tagged plain erase show ?thesis by blast
qed


theorem chunkText_overlap_prefix_witness:
  "chunkText_tagged ''aa. bb. cc.'' 7 4
     = Some [(Accumulated, ''aa. bb.''), (Accumulated, ''bb. cc.'')]
   \<and> chunkText ''aa. bb. cc.'' 7 4 = Some [''aa. bb.'', ''bb. cc.'']
   \<and> dropWhile is_space (slice_from ''aa. bb.'' (- 4)) = ''bb.''
   \<and> prefix (dropWhile is_space (slice_from ''aa. bb.'' (- 4))) ''bb. cc.''"
proof -
  have ov: "(0::int) < 4" "(4::int) < 7" by simp_all
  have t: "chunkText_tagged ''aa. bb. cc.'' 7 4
     = Some [(Accumulated, ''aa. bb.''), (Accumulated, ''bb. cc.'')]"
    by code_simp
  from chunkText_overlap_prefix[OF ov, of "''aa. bb. cc.''"] t
  have c: "chunkText ''aa. bb. cc.'' 7 4
             = Some (map snd [(Accumulated, ''aa. bb.''), (Accumulated, ''bb. cc.'')])"
    and p: "\<forall>i. Suc i < length [(Accumulated, ''aa. bb.''), (Accumulated, ''bb. cc.'')]
              \<and> fst ([(Accumulated, ''aa. bb.''), (Accumulated, ''bb. cc.'')] ! i) = Accumulated
              \<and> fst ([(Accumulated, ''aa. bb.''), (Accumulated, ''bb. cc.'')] ! Suc i) = Accumulated
              \<longrightarrow> prefix (dropWhile is_space
                     (slice_from (snd ([(Accumulated, ''aa. bb.''), (Accumulated, ''bb. cc.'')] ! i)) (- 4)))
                     (snd ([(Accumulated, ''aa. bb.''), (Accumulated, ''bb. cc.'')] ! Suc i))"
    by auto
  from p[rule_format, of 0]
  have pre: "prefix (dropWhile is_space (slice_from ''aa. bb.'' (- 4))) ''bb. cc.''" by simp
  have d: "dropWhile is_space (slice_from ''aa. bb.'' (- 4)) = ''bb.''"
    by code_simp
  from t c pre d show ?thesis by simp
qed

text \<open>
  C6 as stated fails. With \<open>chunkSize = 10\<close> and \<open>overlap = 5\<close> the text
  \<^verbatim>\<open>xx. a   b. cc.\<close> gives two chunks, both from the accumulation of sentences; the last
  five characters of the first are three spaces and \<^verbatim>\<open>b.\<close>, and the second chunk starts
  with \<^verbatim>\<open>b.\<close>: the buffer is trimmed when it is pushed, so the white space at the start
  of the overlap is lost. Neither the five characters, nor they followed by a space, nor
  they with one space less are a prefix of the second chunk.
\<close>

theorem chunkText_overlap_counterexample:
  "chunkText ''xx. a   b. cc.'' 10 5 = Some [''xx. a   b.'', ''b. cc.'']
   \<and> chunkText_tagged ''xx. a   b. cc.'' 10 5
       = Some [(Accumulated, ''xx. a   b.''), (Accumulated, ''b. cc.'')]
   \<and> slice_from ''xx. a   b.'' (- 5) = ''   b.''
   \<and> \<not> prefix ''   b.'' ''b. cc.''
   \<and> \<not> prefix (''   b.'' @ '' '') ''b. cc.''
   \<and> \<not> prefix ''  b.'' ''b. cc.''"
  by code_simp


section \<open>Indexing pipeline: sources removed from disk\<close>

lemma fileExists_sources: "fileExists s d \<longleftrightarrow> s \<in> sources d"
  by (auto simp: fileExists_def sources_def filter_empty_conv)

lemma set_getAllFiles: "set (getAllFiles d) = sources d"
  by (simp add: getAllFiles_def sources_def)

lemma sources_deleteChunksByFile: "sources (deleteChunksByFile p d) = sources d - {p}"
  by (auto simp: sources_def chunks_table_deleteChunksByFile)

lemma sources_insertChunk:
  "insertChunk now c d = (out, d') \<Longrightarrow> sources d' \<subseteq> insert (filePath c) (sources d)"
  by (auto simp: sources_def insertChunk_cases Let_def insert_or_replace_chunk_def
           split: option.splits if_splits)

lemma sources_insertMany:
  "insertMany clock i cs d = (out, d') \<Longrightarrow> sources d' \<subseteq> sources d \<union> filePath ` set cs"
proof (induction cs arbitrary: i d)
  case Nil
  then show ?case by simp
next
  case (Cons c cs)
  obtain o1 d1 where step: "insertChunk (clock i) c d = (o1, d1)"
    by (cases "insertChunk (clock i) c d")
  note s1 = sources_insertChunk[OF step]
  show ?case
  proof (cases o1)
    case (Inl e)
    with step Cons.prems have "d' = d1" by simp
    with s1 show ?thesis by auto
  next
    case (Inr cid)
    with step Cons.prems have "insertMany clock (Suc i) cs d1 = (out, d')" by simp
    from Cons.IH[OF this] s1 show ?thesis by auto
  qed
qed

lemma sources_insertChunks:
  assumes "insertChunks clock cs d = (out, d')"
  shows "sources d' \<subseteq> sources d \<union> filePath ` set cs"
proof -
  obtain o1 d1 where run: "insertMany clock 0 cs d = (o1, d1)"
    by (cases "insertMany clock 0 cs d")
  from sources_insertMany[OF run] assms run show ?thesis
    by (cases o1) (auto simp: insertChunks_def transaction_def)
qed

lemma filePath_documentChunks:
  "filePath ` set (documentChunks w rel chunks embeddings) \<subseteq> {rel}"
  by (auto simp: documentChunks_def)

lemma sources_index_file:
  assumes "index_file w cfg path rel d = Some (out, d')"
  shows "sources d' \<subseteq> insert rel (sources d)"
proof (cases "readFileSync w path")
  case (Inl e)
  with assms show ?thesis by (auto simp: index_file_def)
next
  case (Inr fileContent)
  show ?thesis
  proof (cases "chunkText fileContent (config_chunkSize cfg) (config_chunkOverlap cfg)")
    case None
    with Inr assms show ?thesis by (simp add: index_file_def)
  next
    case (Some chunks)
    show ?thesis
    proof (cases "length chunks = 0")
      case True
      with Inr Some assms show ?thesis by (auto simp: index_file_def)
    next
      case False
      show ?thesis
      proof (cases "generateEmbeddings cfg (embeddings_create w) (toFloat32Array w) chunks None")
        case (Inl e)
        with Inr Some False assms show ?thesis by (auto simp: index_file_def)
      next
        case emb: (Inr embeddings)
        obtain o1 d1 where ins: "insertChunks (date_now w rel)
            (documentChunks w rel chunks embeddings) d = (o1, d1)"
          by (cases "insertChunks (date_now w rel) (documentChunks w rel chunks embeddings) d")
        from sources_insertChunks[OF ins] filePath_documentChunks[of w rel chunks embeddings]
        have sub: "sources d1 \<subseteq> insert rel (sources d)" by auto
        from Inr Some False emb ins assms have "d' = d1"
          by (cases o1) (auto simp: index_file_def)
        with sub show ?thesis by simp
      qed
    qed
  qed
qed

lemma reindex_files_step:
  "reindex_files w cfg existingFiles (path # rest) updated totalChunks d =
     (case statSync w path of
        Inl err \<Rightarrow> Some (Inl err, d)
      | Inr stats \<Rightarrow>
          (case index_file w cfg path (path_relative w path)
                  (if path_relative w path \<in> set existingFiles
                   then deleteChunksByFile (path_relative w path) d else d) of
             None \<Rightarrow> None
           | Some (Inl err, d') \<Rightarrow> Some (Inl err, d')
           | Some (Inr None, d') \<Rightarrow>
               reindex_files w cfg existingFiles rest updated totalChunks d'
           | Some (Inr (Some n), d') \<Rightarrow>
               reindex_files w cfg existingFiles rest (updated + 1) (totalChunks + n) d'))"
  by (simp add: Let_def split: sum.splits)

lemma reindex_files_effect:
  "reindex_files w cfg existingFiles files updated totalChunks d = Some (Inr (updated', total'), d')
   \<Longrightarrow> updated \<le> updated' \<and> sources d' \<subseteq> sources d \<union> path_relative w ` set files"
proof (induction files arbitrary: updated totalChunks d)
  case Nil
  then show ?case by simp
next
  case (Cons path rest)
  let ?rel = "path_relative w path"
  let ?d1 = "if ?rel \<in> set existingFiles then deleteChunksByFile ?rel d else d"
  have d1: "sources ?d1 \<subseteq> sources d" by (auto simp: sources_deleteChunksByFile)
  from Cons.prems obtain stats where st: "statSync w path = Inr stats"
    by (cases "statSync w path") (auto simp: reindex_files_step simp del: reindex_files.simps)
  from Cons.prems st obtain out d2 where
    ix: "index_file w cfg path ?rel ?d1 = Some (out, d2)"
    by (cases "index_file w cfg path ?rel ?d1") (auto simp: reindex_files_step simp del: reindex_files.simps)
  from sources_index_file[OF ix] d1 have d2: "sources d2 \<subseteq> insert ?rel (sources d)" by auto
  show ?case
  proof (cases out)
    case (Inl e)
    with Cons.prems st ix show ?thesis by (simp add: reindex_files_step del: reindex_files.simps)
  next
    case (Inr r)
    show ?thesis
    proof (cases r)
      case None
      with Cons.prems st ix Inr
      have "reindex_files w cfg existingFiles rest updated totalChunks d2
              = Some (Inr (updated', total'), d')"
        by (simp add: reindex_files_step del: reindex_files.simps)
      from Cons.IH[OF this] d2 show ?thesis by auto
    next
      case (Some n)
      with Cons.prems st ix Inr
      have "reindex_files w cfg existingFiles rest (updated + 1) (totalChunks + n) d2
              = Some (Inr (updated', total'), d')"
        by (simp add: reindex_files_step del: reindex_files.simps)
      from Cons.IH[OF this] d2 show ?thesis by auto
    qed
  qed
qed

lemma remove_deleted_fold:
  "remove_deleted w existingFiles updated d
     = (updated + length (filter (\<lambda>s. \<not> existsSync w (path_join_cwd w s)) existingFiles),
        fold deleteChunksByFile
          (filter (\<lambda>s. \<not> existsSync w (path_join_cwd w s)) existingFiles) d)"
  by (induction existingFiles arbitrary: updated d) simp_all

lemma remove_deleted_effect:
  "remove_deleted w existingFiles updated d = (updated', d') \<Longrightarrow>
     updated' = updated + length (filter (\<lambda>s. \<not> existsSync w (path_join_cwd w s)) existingFiles)
     \<and> sources d' = sources d - {s \<in> set existingFiles. \<not> existsSync w (path_join_cwd w s)}"
proof (induction existingFiles arbitrary: updated d)
  case Nil
  then show ?case by simp
next
  case (Cons f fs)
  show ?case
  proof (cases "existsSync w (path_join_cwd w f)")
    case True
    with Cons.prems have "remove_deleted w fs updated d = (updated', d')" by simp
    from Cons.IH[OF this] True show ?thesis by auto
  next
    case False
    with Cons.prems
    have "remove_deleted w fs (updated + 1) (deleteChunksByFile f d) = (updated', d')" by simp
    from Cons.IH[OF this] False show ?thesis
      by (auto simp: sources_deleteChunksByFile)
  qed
qed

text \<open>
  C8. Let \<open>reindexDocuments\<close> return a result, on a file system where every file found is
  present on disk at the path the first loop tests. Then every previously indexed source
  that is not on disk has no chunk row afterwards (\<open>fileExists\<close> is false), and
  \<open>filesUpdated\<close> is at least the number of these sources. The first loop is exactly
  \<open>deleteChunksByFile\<close> on each of these sources, counting one for each.
\<close>

theorem reindexDocuments_removes_deleted_sources:
  assumes run: "reindexDocuments w cfg d = Some (Inr res, d')"
    and found: "\<forall>f \<in> set (found_files w). existsSync w (path_join_cwd w (path_relative w f))"
  shows "(\<forall>s \<in> set (getAllFiles d). \<not> existsSync w (path_join_cwd w s) \<longrightarrow> \<not> fileExists s d')
       \<and> card {s \<in> set (getAllFiles d). \<not> existsSync w (path_join_cwd w s)} \<le> filesUpdated res
       \<and> remove_deleted w (new_Set (getAllFiles d)) 0 d
           = (card {s \<in> set (getAllFiles d). \<not> existsSync w (path_join_cwd w s)},
              fold deleteChunksByFile
                (filter (\<lambda>s. \<not> existsSync w (path_join_cwd w s)) (new_Set (getAllFiles d))) d)"
proof -
  let ?ex = "new_Set (getAllFiles d)"
  let ?gone = "{s \<in> set (getAllFiles d). \<not> existsSync w (path_join_cwd w s)}"
  obtain u1 d1 where rm: "remove_deleted w ?ex 0 d = (u1, d1)"
    by (cases "remove_deleted w ?ex 0 d")
  from remove_deleted_effect[OF rm]
  have u1: "u1 = length (filter (\<lambda>s. \<not> existsSync w (path_join_cwd w s)) ?ex)"
    and s1: "sources d1 = sources d - ?gone"
    by (simp_all add: set_new_Set)
  from run obtain config where cfg: "getConfig cfg = Inr config"
    by (cases "getConfig cfg") (auto simp: reindexDocuments_def)
  from run cfg rm obtain u2 t2 where
    loop: "reindex_files w config ?ex (found_files w) u1 0 d1 = Some (Inr (u2, t2), d')"
    and res: "filesUpdated res = u2"
    by (auto simp: reindexDocuments_def Let_def split: option.splits sum.splits prod.splits)
  from reindex_files_effect[OF loop]
  have mono: "u1 \<le> u2" and s2: "sources d' \<subseteq> sources d1 \<union> path_relative w ` set (found_files w)"
    by simp_all
  have "distinct (filter (\<lambda>s. \<not> existsSync w (path_join_cwd w s)) ?ex)"
    by (simp add: distinct_new_Set)
  moreover have "set (filter (\<lambda>s. \<not> existsSync w (path_join_cwd w s)) ?ex) = ?gone"
    by (auto simp: set_new_Set)
  ultimately have "card ?gone = u1"
    unfolding u1 by (metis distinct_card)
  with mono res have count: "card ?gone \<le> filesUpdated res" by simp
  have gone: "\<not> fileExists s d'" if "s \<in> set (getAllFiles d)" "\<not> existsSync w (path_join_cwd w s)" for s
  proof
    assume "fileExists s d'"
    then have "s \<in> sources d'" by (simp add: fileExists_sources)
    with s2 have "s \<in> sources d1 \<or> s \<in> path_relative w ` set (found_files w)" by auto
    then show False
    proof
      assume "s \<in> sources d1"
      with s1 that show False by simp
    next
      assume "s \<in> path_relative w ` set (found_files w)"
      with found that(2) show False by auto
    qed
  qed
  have first: "remove_deleted w ?ex 0 d
           = (card ?gone,
              fold deleteChunksByFile (filter (\<lambda>s. \<not> existsSync w (path_join_cwd w s)) ?ex) d)"
    using remove_deleted_fold[of w ?ex 0 d] \<open>card ?gone = u1\<close> u1 by simp
  from gone count first show ?thesis by blast
qed


theorem reindexDocuments_removes_deleted_sources_witness:
  "reindexDocuments example_world example_cfg store_a
     = Some (Inr \<lparr>filesProcessed = 1, chunksCreated = 2, filesUpdated = 2\<rparr>, store_reindexed)
   \<and> getAllFiles store_a = [''a.txt'']
   \<and> \<not> existsSync example_world (path_join_cwd example_world ''a.txt'')
   \<and> \<not> fileExists ''a.txt'' store_reindexed"
proof -
  have run: "reindexDocuments example_world example_cfg store_a
     = Some (Inr \<lparr>filesProcessed = 1, chunksCreated = 2, filesUpdated = 2\<rparr>, store_reindexed)"
    by code_simp
  have found: "\<forall>f \<in> set (found_files example_world).
      existsSync example_world (path_join_cwd example_world (path_relative example_world f))"
    by (simp add: example_world_def)
  have files: "getAllFiles store_a = [''a.txt'']"
    by (simp add: getAllFiles_def store_a_eq)
  have gone: "\<not> existsSync example_world (path_join_cwd example_world ''a.txt'')"
    by (simp add: example_world_def)
  from reindexDocuments_removes_deleted_sources[OF run found] files gone
  have "\<not> fileExists ''a.txt'' store_reindexed" by simp
  with run files gone show ?thesis by simp
qed

end
